theory Spec2Isabelle
  imports Main
begin

section \<open>Characters and strings of the extractor\<close>

text \<open>
  The extractor (\<^verbatim>\<open>extractor.py\<close>) works on Python \<^verbatim>\<open>str\<close> values.  A document is
  modelled as a \<^typ>\<open>string\<close>, read as a sequence of code points below 256; the
  character classes below are Python's classes restricted to that range.
\<close>

abbreviation nl :: char where
  "nl \<equiv> CHR 0x0A"

text \<open>\<^verbatim>\<open>\s\<close> of \<^verbatim>\<open>re\<close> and the characters removed by \<^verbatim>\<open>str.strip()\<close>:
  the code points for which \<^verbatim>\<open>str.isspace\<close> holds.\<close>

definition is_space :: "char \<Rightarrow> bool" where
  "is_space c \<longleftrightarrow> (of_char c :: nat) \<in> {9, 10, 11, 12, 13, 28, 29, 30, 31, 32, 133, 160}"

text \<open>\<^verbatim>\<open>\S\<close>.\<close>

definition non_space :: "char \<Rightarrow> bool" where
  "non_space c \<longleftrightarrow> \<not> is_space c"

text \<open>\<^verbatim>\<open>\w\<close>: alphanumeric code points (\<^verbatim>\<open>str.isalnum\<close>) and the underscore.\<close>

definition is_word :: "char \<Rightarrow> bool" where
  "is_word c \<longleftrightarrow>
     (let n = (of_char c :: nat) in
        (48 \<le> n \<and> n \<le> 57) \<or> (65 \<le> n \<and> n \<le> 90) \<or> n = 95 \<or> (97 \<le> n \<and> n \<le> 122)
        \<or> n \<in> {170, 178, 179, 181, 185, 186, 188, 189, 190}
        \<or> (192 \<le> n \<and> n \<le> 214) \<or> (216 \<le> n \<and> n \<le> 246) \<or> 248 \<le> n)"

text \<open>\<^verbatim>\<open>[\s\S]\<close>: every character.\<close>

definition any_char :: "char \<Rightarrow> bool" where
  "any_char c \<longleftrightarrow> is_space c \<or> non_space c"

text \<open>\<^verbatim>\<open>str.strip()\<close> with no argument.\<close>

definition strip :: "string \<Rightarrow> string" where
  "strip s = rev (dropWhile is_space (rev (dropWhile is_space s)))"

section \<open>A backtracking matcher for the patterns of the source\<close>

text \<open>
  The scanner is one call of \<^verbatim>\<open>re.compile(...).findall\<close>.  Python's \<^verbatim>\<open>re\<close> is a
  backtracking matcher: at a position it explores the ways of matching in a fixed
  priority order (a greedy quantifier tries more repetitions first, a lazy one
  fewer, an alternation its branches from left to right) and returns the first
  way that matches the whole pattern.  The matcher below returns all ways of
  matching, in that priority order; the match returned by Python is the head
  of the list.

  Only the constructs that occur in the source are modelled; the quantifiers
  \<^verbatim>\<open>*\<close>, \<^verbatim>\<open>+\<close> and \<^verbatim>\<open>*?\<close> are applied to character classes only, as in the source.
\<close>

datatype re =
    Eps
  | Lit char
  | Cls "char \<Rightarrow> bool"
  | Seq re re
  | Alt re re
  | Opt re
  | Star "char \<Rightarrow> bool"
  | Plus "char \<Rightarrow> bool"
  | StarLazy "char \<Rightarrow> bool"
  | Grp nat re
  | Bol
  | EndZ
  | Ahead re

text \<open>
  A span is a matched region: the character before its start (\<open>None\<close> at the
  start of the document), the text from its start to the end of the document,
  and the text from its end to the end of the document.
\<close>

record span =
  sp_prev :: "char option"
  sp_from :: string
  sp_to :: string

definition span_text :: "span \<Rightarrow> string" where
  "span_text sp = take (length (sp_from sp) - length (sp_to sp)) (sp_from sp)"

text \<open>
  The state of the matcher: the character before the current position, the
  text from the current position on, and the groups captured so far.
\<close>

record mstate =
  prev :: "char option"
  rest :: string
  caps :: "nat \<Rightarrow> span option"

definition step :: "(char \<Rightarrow> bool) \<Rightarrow> mstate \<Rightarrow> mstate list" where
  "step P s = (case rest s of
                 [] \<Rightarrow> []
               | c # cs \<Rightarrow> if P c then [s\<lparr>prev := Some c, rest := cs\<rparr>] else [])"

fun star_greedy :: "(char \<Rightarrow> bool) \<Rightarrow> char option \<Rightarrow> string \<Rightarrow> (char option \<times> string) list" where
  "star_greedy P p [] = [(p, [])]"
| "star_greedy P p (c # cs) = (if P c then star_greedy P (Some c) cs else []) @ [(p, c # cs)]"

fun star_lazy :: "(char \<Rightarrow> bool) \<Rightarrow> char option \<Rightarrow> string \<Rightarrow> (char option \<times> string) list" where
  "star_lazy P p [] = [(p, [])]"
| "star_lazy P p (c # cs) = (p, c # cs) # (if P c then star_lazy P (Some c) cs else [])"

definition move :: "mstate \<Rightarrow> char option \<times> string \<Rightarrow> mstate" where
  "move s pr = s\<lparr>prev := fst pr, rest := snd pr\<rparr>"

definition capture :: "nat \<Rightarrow> mstate \<Rightarrow> mstate \<Rightarrow> mstate" where
  "capture n s s' =
     s'\<lparr>caps := (caps s')(n \<mapsto> \<lparr>sp_prev = prev s, sp_from = rest s, sp_to = rest s'\<rparr>)\<rparr>"

fun rmatch :: "re \<Rightarrow> mstate \<Rightarrow> mstate list" where
  "rmatch Eps s = [s]"
| "rmatch (Lit c) s = step (\<lambda>x. x = c) s"
| "rmatch (Cls P) s = step P s"
| "rmatch (Seq a b) s = concat (map (rmatch b) (rmatch a s))"
| "rmatch (Alt a b) s = rmatch a s @ rmatch b s"
| "rmatch (Opt a) s = rmatch a s @ [s]"
| "rmatch (Star P) s = map (move s) (star_greedy P (prev s) (rest s))"
| "rmatch (Plus P) s = concat (map (\<lambda>s'. map (move s') (star_greedy P (prev s') (rest s'))) (step P s))"
| "rmatch (StarLazy P) s = map (move s) (star_lazy P (prev s) (rest s))"
| "rmatch (Grp n a) s = map (capture n s) (rmatch a s)"
| "rmatch Bol s = (if prev s = None \<or> prev s = Some nl then [s] else [])"
| "rmatch EndZ s = (if rest s = [] then [s] else [])"
| "rmatch (Ahead a) s = (if rmatch a s = [] then [] else [s])"

fun str_re :: "string \<Rightarrow> re" where
  "str_re [] = Eps"
| "str_re (c # cs) = Seq (Lit c) (str_re cs)"

section \<open>The block scanner\<close>

text \<open>
  The pattern of \<^verbatim>\<open>extract_full_files\<close>, compiled with \<^verbatim>\<open>re.MULTILINE\<close>:
  \<^verbatim>\<open>^#\s*(\S+\.(py|js|jsx|html|css|json|yaml|yml|md))\s*\n(?:```(\w+)?\n)?([\s\S]*?)(?:```|(?=^# |\Z))\<close>
\<close>

definition extension_re :: re where
  "extension_re =
     Alt (str_re ''py'') (Alt (str_re ''js'') (Alt (str_re ''jsx'') (Alt (str_re ''html'')
     (Alt (str_re ''css'') (Alt (str_re ''json'') (Alt (str_re ''yaml'') (Alt (str_re ''yml'')
     (str_re ''md''))))))))"

definition heading_re :: re where
  "heading_re =
     Seq Bol (Seq (Lit CHR ''#'') (Seq (Star is_space)
       (Seq (Grp 1 (Seq (Plus non_space) (Seq (Lit CHR ''.'') (Grp 2 extension_re))))
         (Seq (Star is_space) (Lit nl)))))"

definition fence_open_re :: re where
  "fence_open_re = Opt (Seq (str_re ''```'') (Seq (Opt (Grp 3 (Plus is_word))) (Lit nl)))"

definition content_re :: re where
  "content_re =
     Seq (Grp 4 (StarLazy any_char))
       (Alt (str_re ''```'') (Ahead (Alt (Seq Bol (str_re ''# '')) EndZ)))"

definition file_pattern :: re where
  "file_pattern = Seq heading_re (Seq fence_open_re content_re)"

text \<open>
  One attempt of the matcher at a position: Python returns the first way of
  matching in priority order, or no match.
\<close>

definition match_here :: "re \<Rightarrow> char option \<Rightarrow> string \<Rightarrow> mstate option" where
  "match_here r p s =
     (case rmatch r \<lparr>prev = p, rest = s, caps = (\<lambda>_. None)\<rparr> of
        [] \<Rightarrow> None
      | m # _ \<Rightarrow> Some m)"

text \<open>
  The scan of \<^verbatim>\<open>findall\<close>: try the pattern at the current position; on a match
  record it and go on at its end, otherwise go on one character later.  The
  position is given by the character before it and the text after it.  A
  match that consumes nothing makes the scan go on one character later.
\<close>

function finditer :: "re \<Rightarrow> char option \<Rightarrow> string \<Rightarrow> mstate list" where
  "finditer r p s =
     (case match_here r p s of
        None \<Rightarrow> (case s of [] \<Rightarrow> [] | c # cs \<Rightarrow> finditer r (Some c) cs)
      | Some m \<Rightarrow>
          m # (if length (rest m) < length s then finditer r (prev m) (rest m)
               else (case s of [] \<Rightarrow> [] | c # cs \<Rightarrow> finditer r (Some c) cs)))"
  by pat_completeness auto
termination
  by (relation "measure (\<lambda>(r, p, s). length s)") auto

text \<open>The text of a group; \<^verbatim>\<open>findall\<close> gives the empty string for a group that
  took no part in the match.\<close>

definition group :: "mstate \<Rightarrow> nat \<Rightarrow> string" where
  "group m n = (case caps m n of None \<Rightarrow> [] | Some sp \<Rightarrow> span_text sp)"

definition findall :: "re \<Rightarrow> string \<Rightarrow> (string \<times> string \<times> string \<times> string) list" where
  "findall r s = map (\<lambda>m. (group m 1, group m 2, group m 3, group m 4)) (finditer r None s)"

text \<open>
  The blocks that the loop of \<^verbatim>\<open>extract_full_files\<close> builds from the matches:
  file name, extension, language specifier and content, each stripped.
\<close>

record block =
  file_name :: string
  extension :: string
  language_specifier :: string
  file_content :: string

definition block_of :: "string \<times> string \<times> string \<times> string \<Rightarrow> block" where
  "block_of t = (case t of (g1, g2, g3, g4) \<Rightarrow>
     \<lparr>file_name = strip g1, extension = strip g2,
      language_specifier = (if g3 \<noteq> [] then strip g3 else []),
      file_content = strip g4\<rparr>)"

definition scan :: "string \<Rightarrow> block list" where
  "scan content = map block_of (findall file_pattern content)"

section \<open>Notions used to state the properties of the scanner\<close>

text \<open>The nine extensions of the pattern.\<close>

definition extensions :: "string list" where
  "extensions = [''py'', ''js'', ''jsx'', ''html'', ''css'', ''json'', ''yaml'', ''yml'', ''md'']"

text \<open>The groups that a pattern can set.\<close>

fun groups_of :: "re \<Rightarrow> nat set" where
  "groups_of (Seq a b) = groups_of a \<union> groups_of b"
| "groups_of (Alt a b) = groups_of a \<union> groups_of b"
| "groups_of (Opt a) = groups_of a"
| "groups_of (Grp n a) = insert n (groups_of a)"
| "groups_of _ = {}"

text \<open>What a way of matching consumes: \<open>consumed s xs m\<close> says that the matcher
  went from state \<open>s\<close> to state \<open>m\<close> over the text \<open>xs\<close>.\<close>

definition consumed :: "mstate \<Rightarrow> string \<Rightarrow> mstate \<Rightarrow> bool" where
  "consumed s xs m \<longleftrightarrow> rest s = xs @ rest m \<and> prev m = (if xs = [] then prev s else Some (last xs))"

text \<open>
  The places where the content of a block can end, as the pattern has them: at
  a fence closer (three backquotes), at a line that begins with a hash and a
  space, or at the end of the document.  \<open>p\<close> is the character before the
  place, \<open>s\<close> the text from the place on.
\<close>

definition at_line_start :: "char option \<Rightarrow> bool" where
  "at_line_start p \<longleftrightarrow> p = None \<or> p = Some nl"

definition starts_with :: "string \<Rightarrow> string \<Rightarrow> bool" where
  "starts_with w s \<longleftrightarrow> take (length w) s = w"

definition is_boundary :: "char option \<Rightarrow> string \<Rightarrow> bool" where
  "is_boundary p s \<longleftrightarrow>
     starts_with ''```'' s \<or> (at_line_start p \<and> starts_with ''# '' s) \<or> s = []"

text \<open>The character before position \<open>j\<close> of a text \<open>s\<close> that starts after the
  character \<open>p\<close>.\<close>

definition char_before :: "char option \<Rightarrow> string \<Rightarrow> nat \<Rightarrow> char option" where
  "char_before p s j = (if j = 0 then p else Some (s ! (j - 1)))"

text \<open>
  A heading, as the pattern has it: at the start of a line a hash, optional
  whitespace, a token without whitespace that is a non-empty stem, a dot and
  one of the nine extensions, and then optional whitespace up to a newline.
  \<open>heading_name\<close> is the token after the hash.
\<close>

definition has_extension :: "string \<Rightarrow> bool" where
  "has_extension tok \<longleftrightarrow>
     list_ex (\<lambda>e. length e + 1 < length tok \<and> drop (length tok - (length e + 1)) tok = CHR ''.'' # e)
       extensions"

definition heading_name :: "string \<Rightarrow> string" where
  "heading_name s = takeWhile non_space (dropWhile is_space (tl s))"

definition is_heading :: "char option \<Rightarrow> string \<Rightarrow> bool" where
  "is_heading p s \<longleftrightarrow>
     at_line_start p \<and> s \<noteq> [] \<and> hd s = CHR ''#'' \<and> has_extension (heading_name s)
     \<and> nl \<in> set (takeWhile is_space (dropWhile non_space (dropWhile is_space (tl s))))"

text \<open>The names of the headings of a document, in the order of the document:
  every position is looked at, \<open>p\<close> being the character before it.\<close>

fun headings :: "char option \<Rightarrow> string \<Rightarrow> string list" where
  "headings p [] = []"
| "headings p (c # cs) =
     (if is_heading p (c # cs) then [heading_name (c # cs)] else []) @ headings (Some c) cs"

text \<open>A document is well formed when each of its headings is written with a
  space after the hash.\<close>

fun well_formed :: "char option \<Rightarrow> string \<Rightarrow> bool" where
  "well_formed p [] = True"
| "well_formed p (c # cs) =
     ((is_heading p (c # cs) \<longrightarrow> starts_with ''# '' (c # cs)) \<and> well_formed (Some c) cs)"

text \<open>
  Plain paragraph text: text without a fence marker and without a line that
  begins with a hash and a space.  A document of unfenced blocks is a sequence
  of headings \<^verbatim>\<open># stem.ext\<close>, each on a line of its own and followed by its
  paragraph text; the text of a block that another block follows ends with a
  newline.
\<close>

definition plain_text :: "string \<Rightarrow> bool" where
  "plain_text t \<longleftrightarrow> (\<forall>j < length t. \<not> is_boundary (char_before (Some nl) t j) (drop j t))"

fun render_plain :: "(string \<times> string \<times> string) list \<Rightarrow> string" where
  "render_plain [] = []"
| "render_plain ((stem, ext, text) # bs) =
     ''# '' @ stem @ ''.'' @ ext @ [nl] @ text @ render_plain bs"

fun plain_blocks :: "(string \<times> string \<times> string) list \<Rightarrow> bool" where
  "plain_blocks [] = True"
| "plain_blocks ((stem, ext, text) # bs) =
     (stem \<noteq> [] \<and> (\<forall>c \<in> set stem. non_space c) \<and> ext \<in> set extensions \<and> plain_text text
      \<and> (bs \<noteq> [] \<longrightarrow> text = [] \<or> last text = nl) \<and> plain_blocks bs)"

text \<open>\<open>hash_space_free l r\<close>: in the text \<open>l\<close> followed by \<open>r\<close>, no hash followed by
  a space begins inside \<open>l\<close>.\<close>

definition hash_space_free :: "string \<Rightarrow> string \<Rightarrow> bool" where
  "hash_space_free l r \<longleftrightarrow> (\<forall>a b. l = a @ b \<and> b \<noteq> [] \<longrightarrow> \<not> starts_with ''# '' (b @ r))"

section \<open>Values and effects of the surrounding program\<close>

text \<open>The values that \<^verbatim>\<open>json.load\<close> returns; an object keeps the order of its keys.\<close>

datatype json =
    JNull
  | JBool bool
  | JNum int
  | JStr string
  | JList "json list"
  | JObj "(string \<times> json) list"

text \<open>The exceptions (all subclasses of \<^verbatim>\<open>Exception\<close>) that the program can meet.\<close>

datatype exn = RuntimeError | ValueError | TypeError | AttributeError | ReError | OSError | OtherError

text \<open>
  A classification rule set is a Python \<^verbatim>\<open>dict\<close> from a tag to a pair of path
  segments and pattern; a \<^verbatim>\<open>dict\<close> iterates in insertion order, so it is an
  association list with distinct keys.
\<close>

type_synonym rules = "(string \<times> (json list \<times> string)) list"

text \<open>
  The calls of the logger, one constructor for each message of the source.
\<close>

datatype 'p event =
    Processing_file string
  | Input_missing string
  | Read_failed exn
  | No_files_found
  | Found_files nat
  | Extracting string string
  | All_processed
  | Detected string string
  | Using_mimetypes string string
  | Could_not_detect string
  | Saved 'p
  | Failed_to_save string exn
  | Config_missing string
  | Invalid_pattern string
  | Loaded_patterns string
  | Load_failed exn

text \<open>
  The library and operating-system functions that the program calls are not part
  of the repository; they are parameters of the model.  \<open>'fs\<close> is the state of
  the file system, \<open>'p\<close> the type of \<^verbatim>\<open>pathlib.Path\<close> values.
  \<^item> \<open>re_search pattern s\<close> is \<^verbatim>\<open>re.search(pattern, s, re.IGNORECASE)\<close>: whether there
    is a match, or the exception raised (\<^verbatim>\<open>re.error\<close> for a pattern that does
    not compile);
  \<^item> \<open>guess_type s\<close> is the first component of \<^verbatim>\<open>mimetypes.guess_type(s)\<close>, or the
    exception raised (\<^verbatim>\<open>ValueError\<close> for a name that \<^verbatim>\<open>urllib.parse\<close> rejects, such as
    \<^verbatim>\<open>//[\<close>);
  \<^item> \<open>isfile\<close> is \<^verbatim>\<open>os.path.isfile\<close>; \<open>read_text\<close> opens and reads a text file;
    \<open>load_json\<close> opens a file and applies \<^verbatim>\<open>json.load\<close>;
  \<^item> \<open>joinpath d segs\<close> is \<^verbatim>\<open>Path(d).joinpath(*segs)\<close>, \<open>path_div\<close> is \<^verbatim>\<open>/\<close>;
  \<^item> \<open>mkdir\<close> is \<^verbatim>\<open>Path.mkdir(parents=True, exist_ok=True)\<close> and \<open>write_text\<close>
    opens the path for writing and writes a string; both return the new
    state of the file system and the exception raised, if any.
\<close>

record ('fs, 'p) pylib =
  re_search :: "string \<Rightarrow> string \<Rightarrow> exn + bool"
  guess_type :: "string \<Rightarrow> exn + string option"
  isfile :: "'fs \<Rightarrow> string \<Rightarrow> bool"
  read_text :: "'fs \<Rightarrow> string \<Rightarrow> exn + string"
  load_json :: "'fs \<Rightarrow> string \<Rightarrow> exn + json"
  joinpath :: "string \<Rightarrow> json list \<Rightarrow> exn + 'p"
  path_div :: "'p \<Rightarrow> string \<Rightarrow> 'p"
  mkdir :: "'p \<Rightarrow> 'fs \<Rightarrow> 'fs \<times> exn option"
  write_text :: "'p \<Rightarrow> string \<Rightarrow> 'fs \<Rightarrow> 'fs \<times> exn option"

section \<open>The classifier\<close>

text \<open>Assignment to a key of a \<^verbatim>\<open>dict\<close>: an existing key keeps its place, a new key
  goes to the end.  \<^verbatim>\<open>dict.update\<close> assigns the items of its argument in order.\<close>

fun dict_set :: "('k \<times> 'v) list \<Rightarrow> 'k \<Rightarrow> 'v \<Rightarrow> ('k \<times> 'v) list" where
  "dict_set [] k v = [(k, v)]"
| "dict_set ((k', v') # d) k v = (if k' = k then (k, v) # d else (k', v') # dict_set d k v)"

fun dict_update :: "('k \<times> 'v) list \<Rightarrow> ('k \<times> 'v) list \<Rightarrow> ('k \<times> 'v) list" where
  "dict_update d [] = d"
| "dict_update d ((k, v) # c) = dict_update (dict_set d k v) c"

text \<open>The default table; \<open>CHR 0x5C\<close> is the backslash of the patterns (\<^verbatim>\<open>r"\.py$"\<close> and so on).\<close>

definition default_patterns :: rules where
  "default_patterns =
     [(''python'', ([JStr ''backend''], CHR 0x5C # ''.py$'')),
      (''javascript'', ([JStr ''frontend''], CHR 0x5C # ''.js$'')),
      (''jsx'', ([JStr ''frontend''], CHR 0x5C # ''.jsx$'')),
      (''html'', ([JStr ''templates''], CHR 0x5C # ''.html$'')),
      (''css'', ([JStr ''static'', JStr ''css''], CHR 0x5C # ''.css$'')),
      (''json'', ([JStr ''static'', JStr ''data''], CHR 0x5C # ''.json$'')),
      (''yaml'', ([JStr ''config''], CHR 0x5C # ''.(yaml|yml)$'')),
      (''markdown'', ([JStr ''docs''], CHR 0x5C # ''.md$''))]"

text \<open>\<^verbatim>\<open>if custom_patterns: patterns.update(custom_patterns)\<close>; \<open>None\<close> and the empty
  \<^verbatim>\<open>dict\<close> are false.\<close>

definition merged_patterns :: "rules option \<Rightarrow> rules" where
  "merged_patterns custom_patterns =
     (case custom_patterns of
        None \<Rightarrow> default_patterns
      | Some c \<Rightarrow> if c = [] then default_patterns else dict_update default_patterns c)"

text \<open>The loop over \<^verbatim>\<open>patterns.items()\<close>: the first rule whose pattern is found in
  the file name; an exception of \<^verbatim>\<open>re.search\<close> leaves the loop and the function.
  Neither \<^verbatim>\<open>re.search\<close> nor \<^verbatim>\<open>mimetypes.guess_type\<close> is called inside a \<^verbatim>\<open>try\<close>.\<close>

fun first_match :: "(string \<Rightarrow> string \<Rightarrow> exn + bool) \<Rightarrow> string \<Rightarrow> rules
    \<Rightarrow> exn + (string \<times> json list) option" where
  "first_match search f [] = Inr None"
| "first_match search f ((language, (directory, pattern)) # others) =
     (case search pattern f of
        Inl e \<Rightarrow> Inl e
      | Inr found \<Rightarrow> if found then Inr (Some (language, directory))
                     else first_match search f others)"

definition detect_language_and_directory ::
    "('fs, 'p) pylib \<Rightarrow> string \<Rightarrow> rules option \<Rightarrow> exn + ((string \<times> json list) \<times> 'p event list)" where
  "detect_language_and_directory lib f custom_patterns =
     (case first_match (re_search lib) f (merged_patterns custom_patterns) of
        Inl e \<Rightarrow> Inl e
      | Inr (Some (language, directory)) \<Rightarrow> Inr ((language, directory), [Detected language f])
      | Inr None \<Rightarrow>
          (case guess_type lib f of
             Inl e \<Rightarrow> Inl e
           | Inr (Some mime_type) \<Rightarrow>
               if mime_type \<noteq> []
               then Inr ((mime_type, [JStr (takeWhile (\<lambda>c. c \<noteq> CHR ''/'') mime_type)]),
                         [Using_mimetypes mime_type f])
               else Inr ((''txt'', [JStr ''misc'']), [Could_not_detect f])
           | Inr None \<Rightarrow> Inr ((''txt'', [JStr ''misc'']), [Could_not_detect f])))"

section \<open>The materializer\<close>

text \<open>\<^verbatim>\<open>save_file\<close>: everything is inside \<^verbatim>\<open>try ... except Exception\<close>, so every
  failure ends in the error message and the function returns.\<close>

definition save_file ::
    "('fs, 'p) pylib \<Rightarrow> string \<Rightarrow> json list \<Rightarrow> string \<Rightarrow> string \<Rightarrow> 'fs \<Rightarrow> 'fs \<times> 'p event list" where
  "save_file lib f directory content output_dir fs =
     (case joinpath lib output_dir directory of
        Inl e \<Rightarrow> (fs, [Failed_to_save f e])
      | Inr target_dir \<Rightarrow>
          (case mkdir lib target_dir fs of
             (fs1, Some e) \<Rightarrow> (fs1, [Failed_to_save f e])
           | (fs1, None) \<Rightarrow>
               (let file_path = path_div lib target_dir f in
                case write_text lib file_path (strip content) fs1 of
                  (fs2, Some e) \<Rightarrow> (fs2, [Failed_to_save f e])
                | (fs2, None) \<Rightarrow> (fs2, [Saved file_path]))))"

section \<open>The driver\<close>

text \<open>The loop over the matches in \<^verbatim>\<open>extract_full_files\<close>.  The result is the
  file system, the messages logged and the exception that left the loop, if
  any: \<^verbatim>\<open>detect_language_and_directory\<close> is called outside any \<^verbatim>\<open>try\<close>.\<close>

fun process_matches ::
    "('fs, 'p) pylib \<Rightarrow> string \<Rightarrow> rules option \<Rightarrow> (string \<times> string \<times> string \<times> string) list
      \<Rightarrow> 'fs \<Rightarrow> 'fs \<times> 'p event list \<times> exn option" where
  "process_matches lib output_dir custom_patterns [] fs = (fs, [], None)"
| "process_matches lib output_dir custom_patterns (m # ms) fs =
     (let b = block_of m in
      case detect_language_and_directory lib (file_name b) custom_patterns of
        Inl e \<Rightarrow> (fs, [Extracting (file_name b) (language_specifier b)], Some e)
      | Inr ((language, directory), dlog) \<Rightarrow>
          (case save_file lib (file_name b) directory (file_content b) output_dir fs of
             (fs1, slog) \<Rightarrow>
               (case process_matches lib output_dir custom_patterns ms fs1 of
                  (fs2, log, ex) \<Rightarrow>
                    (fs2, Extracting (file_name b) (language_specifier b) # dlog @ slog @ log, ex))))"

definition extract_full_files ::
    "('fs, 'p) pylib \<Rightarrow> string \<Rightarrow> string \<Rightarrow> rules option \<Rightarrow> 'fs \<Rightarrow> 'fs \<times> 'p event list \<times> exn option" where
  "extract_full_files lib file_path output_dir custom_patterns fs =
     (if \<not> isfile lib fs file_path then (fs, [Processing_file file_path, Input_missing file_path], None)
      else case read_text lib fs file_path of
        Inl e \<Rightarrow> (fs, [Processing_file file_path, Read_failed e], None)
      | Inr content \<Rightarrow>
          (let matches = findall file_pattern content in
           if matches = [] then (fs, [Processing_file file_path, No_files_found], None)
           else case process_matches lib output_dir custom_patterns matches fs of
             (fs1, log, None) \<Rightarrow>
               (fs1, [Processing_file file_path, Found_files (length matches)] @ log @ [All_processed], None)
           | (fs1, log, Some e) \<Rightarrow>
               (fs1, [Processing_file file_path, Found_files (length matches)] @ log, Some e)))"

section \<open>Loading the rule configuration\<close>

text \<open>The unpacking \<^verbatim>\<open>(dir_path, pattern) = value\<close> of a value from \<^verbatim>\<open>json.load\<close>: any
  iterable of two items unpacks (a string into its characters, an object
  into its keys); other lengths raise \<^verbatim>\<open>ValueError\<close>, a value that is not
  iterable raises \<^verbatim>\<open>TypeError\<close>.\<close>

fun unpack2 :: "json \<Rightarrow> exn + (json \<times> json)" where
  "unpack2 (JList [a, b]) = Inr (a, b)"
| "unpack2 (JList _) = Inl ValueError"
| "unpack2 (JStr [c, d]) = Inr (JStr [c], JStr [d])"
| "unpack2 (JStr _) = Inl ValueError"
| "unpack2 (JObj [(k1, _), (k2, _)]) = Inr (JStr k1, JStr k2)"
| "unpack2 (JObj _) = Inl ValueError"
| "unpack2 _ = Inl TypeError"

text \<open>
  The loop \<^verbatim>\<open>for lang, (dir_path, pattern) in patterns.items()\<close>.  For an entry that
  fails the \<^verbatim>\<open>isinstance\<close> test the body logs the warning and runs
  \<^verbatim>\<open>del patterns[lang]\<close>; the \<^verbatim>\<open>for\<close> statement then asks the iterator of the \<^verbatim>\<open>dict\<close>
  for its next item, and the iterator of a \<^verbatim>\<open>dict\<close> whose size has changed raises
  \<^verbatim>\<open>RuntimeError\<close> (dictionary changed size during iteration), also when the
  deleted entry was the last one.  So the loop ends normally only when every
  entry passes the test, and then returns the \<^verbatim>\<open>dict\<close> unchanged.
\<close>

fun check_items :: "(string \<times> json) list \<Rightarrow> 'p event list \<times> (exn + rules)" where
  "check_items [] = ([], Inr [])"
| "check_items ((lang, v) # others) =
     (case unpack2 v of
        Inl e \<Rightarrow> ([], Inl e)
      | Inr (JList dir_path, JStr pattern) \<Rightarrow>
          (case check_items others of
             (log, Inl e) \<Rightarrow> (log, Inl e)
           | (log, Inr r) \<Rightarrow> (log, Inr ((lang, (dir_path, pattern)) # r)))
      | Inr _ \<Rightarrow> ([Invalid_pattern lang], Inl RuntimeError))"

text \<open>\<^verbatim>\<open>load_custom_patterns\<close>; a loaded value that is not an object has no
  \<^verbatim>\<open>items\<close> (\<^verbatim>\<open>AttributeError\<close>).  Every exception is caught and gives the empty
  \<^verbatim>\<open>dict\<close>.\<close>

definition load_custom_patterns :: "('fs, 'p) pylib \<Rightarrow> 'fs \<Rightarrow> string \<Rightarrow> rules \<times> 'p event list" where
  "load_custom_patterns lib fs config_path =
     (if \<not> isfile lib fs config_path then ([], [Config_missing config_path])
      else case load_json lib fs config_path of
        Inl e \<Rightarrow> ([], [Load_failed e])
      | Inr (JObj patterns) \<Rightarrow>
          (case check_items patterns of
             (log, Inl e) \<Rightarrow> ([], log @ [Load_failed e])
           | (log, Inr r) \<Rightarrow> (r, log @ [Loaded_patterns config_path]))
      | Inr _ \<Rightarrow> ([], [Load_failed AttributeError]))"

section \<open>A small library instance for running the model\<close>

text \<open>
  The theorems below hold for every behaviour of the library parameters.  To
  run the model on concrete inputs, this section gives one instance: an
  in-memory file system (a list of paths with what is there, the first entry
  of a path being the current one) and the few results of \<^verbatim>\<open>re.search\<close> and
  \<^verbatim>\<open>mimetypes.guess_type\<close> that the examples need.  \<open>toy_search\<close> gives CPython's
  result for the patterns of the default table (a suffix test that ignores
  case) and for the pattern \<^verbatim>\<open>(\<close>, which does not compile; no other pattern is
  used with it.  \<open>toy_guess\<close> gives CPython's result for the names used: a name
  that begins with \<^verbatim>\<open>//[\<close> makes \<^verbatim>\<open>mimetypes.guess_type\<close> raise \<^verbatim>\<open>ValueError\<close>.
\<close>

datatype toy_node = Dir | File string | JsonFile json

type_synonym toy_fs = "(string \<times> toy_node) list"

definition lower :: "char \<Rightarrow> char" where
  "lower c = (let n = (of_char c :: nat) in if 65 \<le> n \<and> n \<le> 90 then char_of (n + 32) else c)"

definition ends_with :: "string \<Rightarrow> string \<Rightarrow> bool" where
  "ends_with suf s \<longleftrightarrow> length suf \<le> length s \<and> drop (length s - length suf) (map lower s) = suf"

definition toy_search :: "string \<Rightarrow> string \<Rightarrow> exn + bool" where
  "toy_search pattern s =
     (if pattern = ''('' then Inl ReError
      else if pattern = CHR 0x5C # ''.(yaml|yml)$'' then Inr (ends_with ''.yaml'' s \<or> ends_with ''.yml'' s)
      else if pattern \<in> {CHR 0x5C # ''.py$'', CHR 0x5C # ''.js$'', CHR 0x5C # ''.jsx$'',
             CHR 0x5C # ''.html$'', CHR 0x5C # ''.css$'', CHR 0x5C # ''.json$'', CHR 0x5C # ''.md$''}
        then Inr (ends_with (butlast (tl pattern)) s)
      else Inr False)"

definition toy_guess :: "string \<Rightarrow> exn + string option" where
  "toy_guess s = (if take 3 s = ''//['' then Inl ValueError
                  else if ends_with ''.png'' s then Inr (Some ''image/png'')
                  else if ends_with ''.txt'' s then Inr (Some ''text/plain'') else Inr None)"

definition toy_isfile :: "toy_fs \<Rightarrow> string \<Rightarrow> bool" where
  "toy_isfile fs p = (case map_of fs p of Some (File _) \<Rightarrow> True | Some (JsonFile _) \<Rightarrow> True | _ \<Rightarrow> False)"

definition toy_read :: "toy_fs \<Rightarrow> string \<Rightarrow> exn + string" where
  "toy_read fs p = (case map_of fs p of Some (File c) \<Rightarrow> Inr c | _ \<Rightarrow> Inl OSError)"

definition toy_load_json :: "toy_fs \<Rightarrow> string \<Rightarrow> exn + json" where
  "toy_load_json fs p = (case map_of fs p of Some (JsonFile j) \<Rightarrow> Inr j | Some (File _) \<Rightarrow> Inl ValueError
                         | _ \<Rightarrow> Inl OSError)"

fun toy_joinpath :: "string \<Rightarrow> json list \<Rightarrow> exn + string" where
  "toy_joinpath d [] = Inr d"
| "toy_joinpath d (JStr seg # segs) = toy_joinpath (d @ ''/'' @ seg) segs"
| "toy_joinpath d (_ # segs) = Inl TypeError"

definition toy_mkdir :: "string \<Rightarrow> toy_fs \<Rightarrow> toy_fs \<times> exn option" where
  "toy_mkdir p fs = (case map_of fs p of
                       None \<Rightarrow> ((p, Dir) # fs, None)
                     | Some Dir \<Rightarrow> (fs, None)
                     | Some _ \<Rightarrow> (fs, Some OSError))"

definition toy_write :: "string \<Rightarrow> string \<Rightarrow> toy_fs \<Rightarrow> toy_fs \<times> exn option" where
  "toy_write p c fs = (case map_of fs p of
                         Some Dir \<Rightarrow> (fs, Some OSError)
                       | _ \<Rightarrow> ((p, File c) # fs, None))"

definition toy_lib :: "(toy_fs, string) pylib" where
  "toy_lib = \<lparr>re_search = toy_search, guess_type = toy_guess, isfile = toy_isfile,
              read_text = toy_read, load_json = toy_load_json, joinpath = toy_joinpath,
              path_div = (\<lambda>p f. p @ ''/'' @ f), mkdir = toy_mkdir, write_text = toy_write\<rparr>"

section \<open>Properties of the classifier\<close>




subsection \<open>Merging caller-supplied rules\<close>






lemma first_match_total:
  "\<forall>(t, d, p) \<in> set rs. \<exists>b. search p f = Inr b \<Longrightarrow> \<exists>r. first_match search f rs = Inr r"
  by (induction rs) auto



subsection \<open>Patterns that do not compile\<close>

lemma first_match_none_iff:
  "first_match search f rs = Inr None \<longleftrightarrow> (\<forall>(t, d, p) \<in> set rs. search p f = Inr False)"
proof (induction rs)
  case Nil
  then show ?case by simp
next
  case (Cons r rs)
  obtain t d p where r: "r = (t, d, p)" by (cases r)
  show ?case
  proof (cases "search p f")
    case (Inl e)
    then show ?thesis by (simp add: r)
  next
    case (Inr found)
    with Cons show ?thesis by (cases found) (simp_all add: r)
  qed
qed

lemma first_match_raises_aux:
  "first_match search f rs = Inl e \<longleftrightarrow>
     (\<exists>pre r post. rs = pre @ r # post
        \<and> (\<forall>r' \<in> set pre. search (snd (snd r')) f = Inr False) \<and> search (snd (snd r)) f = Inl e)"
proof (induction rs)
  case Nil
  then show ?case by simp
next
  case (Cons r0 rs)
  let ?R = "\<lambda>rs. \<exists>pre r post. rs = pre @ r # post
        \<and> (\<forall>r' \<in> set pre. search (snd (snd r')) f = Inr False) \<and> search (snd (snd r)) f = Inl e"
  let ?s0 = "search (snd (snd r0)) f"
  have fm: "first_match search f (r0 # rs) =
      (case ?s0 of Inl e \<Rightarrow> Inl e
       | Inr found \<Rightarrow> if found then Inr (Some (fst r0, fst (snd r0))) else first_match search f rs)"
    by (cases r0 rule: prod_cases3) (simp split: sum.splits)
  have split: "?R (r0 # rs) \<longleftrightarrow> ?s0 = Inl e \<or> (?s0 = Inr False \<and> ?R rs)"
  proof
    assume "?R (r0 # rs)"
    then obtain pre r post where h: "r0 # rs = pre @ r # post"
      "\<forall>r' \<in> set pre. search (snd (snd r')) f = Inr False" "search (snd (snd r)) f = Inl e"
      by blast
    show "?s0 = Inl e \<or> (?s0 = Inr False \<and> ?R rs)"
    proof (cases pre)
      case Nil
      with h show ?thesis by simp
    next
      case (Cons a pre')
      with h have 1: "?s0 = Inr False" and 2: "rs = pre' @ r # post"
        and 3: "\<forall>r' \<in> set pre'. search (snd (snd r')) f = Inr False" by simp_all
      from 2 3 h(3) have "?R rs" by blast
      with 1 show ?thesis by simp
    qed
  next
    assume "?s0 = Inl e \<or> (?s0 = Inr False \<and> ?R rs)"
    then show "?R (r0 # rs)"
    proof
      assume a: "?s0 = Inl e"
      have "r0 # rs = [] @ r0 # rs" by simp
      moreover have "\<forall>r' \<in> set []. search (snd (snd r')) f = Inr False" by simp
      ultimately show ?thesis using a by blast
    next
      assume a: "?s0 = Inr False \<and> ?R rs"
      then obtain pre r post where h: "rs = pre @ r # post"
        "\<forall>r' \<in> set pre. search (snd (snd r')) f = Inr False" "search (snd (snd r)) f = Inl e"
        by blast
      have "r0 # rs = (r0 # pre) @ r # post" using h(1) by simp
      moreover have "\<forall>r' \<in> set (r0 # pre). search (snd (snd r')) f = Inr False"
        using a h(2) by simp
      ultimately show ?thesis using h(3) by blast
    qed
  qed
  show ?case
  proof (cases ?s0)
    case (Inl e0)
    then show ?thesis unfolding split fm by simp
  next
    case (Inr found)
    show ?thesis
    proof (cases found)
      case True
      with Inr show ?thesis unfolding split fm by simp
    next
      case False
      with Inr Cons.IH show ?thesis unfolding split fm by simp
    qed
  qed
qed

lemma first_match_raises_iff:
  "first_match search f rs = Inl e \<longleftrightarrow>
     (\<exists>pre t d p post. rs = pre @ (t, d, p) # post
        \<and> (\<forall>(t', d', p') \<in> set pre. search p' f = Inr False) \<and> search p f = Inl e)"
  unfolding first_match_raises_aux by (simp add: case_prod_beta)

lemma check_items_accepts:
  "check_items (map (\<lambda>(t, d, p). (t, JList [JList d, JStr p])) rs) = ([], Inr rs)"
  by (induction rs) auto

text \<open>
  Claim C4, as the code has it.  No rule is compiled or rejected before use:
  \<^verbatim>\<open>load_custom_patterns\<close> returns every configuration whose entries are pairs of
  a list and a string as it is, whatever the pattern strings are.  Resolve
  (\<^verbatim>\<open>detect_language_and_directory\<close>) raises exactly in two cases: \<^verbatim>\<open>re.search\<close>
  raises for the pattern of a rule that is reached, all rules before it having
  found no match; or no rule finds a match and \<^verbatim>\<open>mimetypes.guess_type\<close> raises
  for the file name.  In every other case it returns a tag and path.
\<close>

theorem resolve_raises_iff_reached:
  "(isfile lib fs config_path
      \<and> load_json lib fs config_path = Inr (JObj (map (\<lambda>(t, d, p). (t, JList [JList d, JStr p])) rs))
     \<longrightarrow> load_custom_patterns lib fs config_path = (rs, [Loaded_patterns config_path]))
   \<and> (detect_language_and_directory lib f custom_patterns = Inl e \<longleftrightarrow>
        (\<exists>pre t d p post. merged_patterns custom_patterns = pre @ (t, d, p) # post
           \<and> (\<forall>(t', d', p') \<in> set pre. re_search lib p' f = Inr False) \<and> re_search lib p f = Inl e)
        \<or> ((\<forall>(t, d, p) \<in> set (merged_patterns custom_patterns). re_search lib p f = Inr False)
            \<and> guess_type lib f = Inl e))
   \<and> ((\<exists>e. detect_language_and_directory lib f custom_patterns = Inl e)
        \<or> (\<exists>r log. detect_language_and_directory lib f custom_patterns = Inr (r, log)))"
proof (intro conjI)
  show "isfile lib fs config_path
      \<and> load_json lib fs config_path = Inr (JObj (map (\<lambda>(t, d, p). (t, JList [JList d, JStr p])) rs))
     \<longrightarrow> load_custom_patterns lib fs config_path = (rs, [Loaded_patterns config_path])"
    by (simp add: load_custom_patterns_def check_items_accepts)
  let ?fm = "first_match (re_search lib) f (merged_patterns custom_patterns)"
  have "detect_language_and_directory lib f custom_patterns = Inl e \<longleftrightarrow>
          ?fm = Inl e \<or> (?fm = Inr None \<and> guess_type lib f = Inl e)"
    by (auto simp: detect_language_and_directory_def split: sum.splits option.splits)
  then show "detect_language_and_directory lib f custom_patterns = Inl e \<longleftrightarrow>
        (\<exists>pre t d p post. merged_patterns custom_patterns = pre @ (t, d, p) # post
           \<and> (\<forall>(t', d', p') \<in> set pre. re_search lib p' f = Inr False) \<and> re_search lib p f = Inl e)
        \<or> ((\<forall>(t, d, p) \<in> set (merged_patterns custom_patterns). re_search lib p f = Inr False)
            \<and> guess_type lib f = Inl e)"
    unfolding first_match_raises_iff first_match_none_iff .
  show "(\<exists>e. detect_language_and_directory lib f custom_patterns = Inl e)
        \<or> (\<exists>r log. detect_language_and_directory lib f custom_patterns = Inr (r, log))"
    by (cases "detect_language_and_directory lib f custom_patterns") auto
qed

theorem resolve_raises_iff_reached_witness:
  "load_custom_patterns toy_lib
     [(''rules.json'', JsonFile (JObj [(''broken'', JList [JList [JStr ''x''], JStr ''(''])]))]
     ''rules.json''
     = ([(''broken'', ([JStr ''x''], ''(''))], [Loaded_patterns ''rules.json''])
   \<and> detect_language_and_directory toy_lib ''Makefile'' (Some [(''broken'', ([JStr ''x''], ''(''))])
     = Inl ReError
   \<and> detect_language_and_directory toy_lib ''//['' None = Inl ValueError"
proof -
  let ?fs = "[(''rules.json'', JsonFile (JObj [(''broken'', JList [JList [JStr ''x''], JStr ''(''])]))]"
  let ?c = "[(''broken'', ([JStr ''x''], ''(''))]"
  have h1: "isfile toy_lib ?fs ''rules.json''
      \<and> load_json toy_lib ?fs ''rules.json''
          = Inr (JObj (map (\<lambda>(t, d, p). (t, JList [JList d, JStr p])) ?c))"
    by (simp add: toy_lib_def toy_isfile_def toy_load_json_def)
  have l: "load_custom_patterns toy_lib ?fs ''rules.json'' = (?c, [Loaded_patterns ''rules.json''])"
    using resolve_raises_iff_reached [where lib = toy_lib and fs = ?fs and config_path = "''rules.json''"
        and rs = ?c] h1 by blast
  have m: "merged_patterns (Some ?c) = default_patterns @ (''broken'', [JStr ''x''], ''('') # []"
    by (simp add: merged_patterns_def default_patterns_def)
  have pre: "\<forall>(t', d', p') \<in> set default_patterns. re_search toy_lib p' ''Makefile'' = Inr False"
    by (simp add: default_patterns_def toy_lib_def toy_search_def ends_with_def lower_def)
  have hit: "re_search toy_lib ''('' ''Makefile'' = Inl ReError"
    by (simp add: toy_lib_def toy_search_def)
  have r1: "detect_language_and_directory toy_lib ''Makefile'' (Some ?c) = Inl ReError"
    using resolve_raises_iff_reached [where lib = toy_lib and f = "''Makefile''"
        and custom_patterns = "Some ?c" and e = ReError] m pre hit by blast
  have none: "\<forall>(t, d, p) \<in> set (merged_patterns None). re_search toy_lib p ''//['' = Inr False"
    by (simp add: merged_patterns_def default_patterns_def toy_lib_def toy_search_def ends_with_def
        lower_def)
  have g: "guess_type toy_lib ''//['' = Inl ValueError"
    by (simp add: toy_lib_def toy_guess_def)
  have r2: "detect_language_and_directory toy_lib ''//['' None = Inl ValueError"
    using resolve_raises_iff_reached [where lib = toy_lib and f = "''//[''"
        and custom_patterns = None and e = ValueError] none g by blast
  from l r1 r2 show ?thesis by (intro conjI)
qed

text \<open>
  The claim as stated fails: a configuration whose rule for the tag
  \<^verbatim>\<open>python\<close> has the pattern \<^verbatim>\<open>(\<close> is loaded without complaint, and resolving
  \<^verbatim>\<open>a.py\<close> with it raises \<^verbatim>\<open>re.error\<close>.
\<close>

theorem resolve_raises_counterexample:
  "load_custom_patterns toy_lib
     [(''rules.json'', JsonFile (JObj [(''python'', JList [JList [JStr ''x''], JStr ''(''])]))]
     ''rules.json''
     = ([(''python'', ([JStr ''x''], ''(''))], [Loaded_patterns ''rules.json''])
   \<and> detect_language_and_directory toy_lib ''a.py'' (Some [(''python'', ([JStr ''x''], ''(''))])
     = Inl ReError"
  by (simp add: load_custom_patterns_def detect_language_and_directory_def merged_patterns_def
      default_patterns_def toy_lib_def toy_isfile_def toy_load_json_def toy_search_def)

section \<open>Properties of the configuration loader\<close>

lemma check_items_all_or_nothing:
  "check_items items = (log, Inr r) \<Longrightarrow> map fst r = map fst items"
  by (induction items arbitrary: log r)
     (auto split: sum.splits prod.splits json.splits list.splits)

text \<open>
  Claim C3 says that a malformed entry is dropped and the other entries are
  kept.  The code logs the warning and deletes the entry while it iterates
  over the \<^verbatim>\<open>dict\<close>; the \<^verbatim>\<open>RuntimeError\<close> that follows is caught by the
  \<^verbatim>\<open>except\<close> clause, which returns the empty \<^verbatim>\<open>dict\<close>: the well-formed entry
  \<^verbatim>\<open>good\<close> is lost with the malformed entry \<^verbatim>\<open>bad\<close>.
\<close>

theorem load_custom_patterns_loses_all:
  "load_custom_patterns toy_lib
     [(''rules.json'', JsonFile (JObj
        [(''good'', JList [JList [JStr ''scripts''], JStr (CHR 0x5C # ''.py$'')]),
         (''bad'', JList [JStr ''scripts'', JStr (CHR 0x5C # ''.js$'')])]))]
     ''rules.json''
     = ([], [Invalid_pattern ''bad'', Load_failed RuntimeError])"
  by (simp add: load_custom_patterns_def toy_lib_def toy_isfile_def toy_load_json_def)

section \<open>Properties of the materializer and the driver\<close>

lemma dropWhile_rev_head:
  assumes "dropWhile P (rev (dropWhile P s)) = a # as"
  shows "\<not> P a \<and> \<not> P (last (a # as))"
proof -
  let ?u = "dropWhile P s"
  from assms have a: "\<not> P a"
    by (metis hd_dropWhile list.distinct(1) list.sel(1))
  from assms have "rev ?u \<noteq> []" by (metis dropWhile.simps(1) list.distinct(1))
  then have u: "?u \<noteq> []" by simp
  then have hu: "\<not> P (hd ?u)" by (rule hd_dropWhile)
  obtain pre where "rev ?u = pre @ a # as"
    using assms by (metis takeWhile_dropWhile_id)
  then have "last (a # as) = last (rev ?u)" by simp
  also have "\<dots> = hd ?u" using u by (simp add: last_rev)
  finally show ?thesis using a hu by simp
qed

lemma strip_idem: "strip (strip s) = strip s"
proof (cases "dropWhile is_space (rev (dropWhile is_space s))")
  case Nil
  then have s: "strip s = []" by (simp add: strip_def)
  have "strip [] = []" by (simp add: strip_def)
  then show ?thesis by (simp only: s)
next
  case (Cons a as)
  from dropWhile_rev_head [OF Cons] have a: "\<not> is_space a" and l: "\<not> is_space (last (a # as))"
    by simp_all
  have s: "strip s = rev (a # as)" by (simp add: strip_def Cons)
  have "hd (rev (a # as)) = last (a # as)" by (simp add: hd_rev)
  then have "dropWhile is_space (rev (a # as)) = rev (a # as)"
    using l by (cases "rev (a # as)") auto
  then have "strip (rev (a # as)) = rev (dropWhile is_space (a # as))"
    by (simp add: strip_def)
  also have "\<dots> = rev (a # as)" using a by simp
  finally show ?thesis by (simp add: s)
qed

lemma save_file_saved:
  assumes "save_file lib f directory content output_dir fs = (fs', [Saved p])"
  shows "\<exists>target_dir fs1.
           joinpath lib output_dir directory = Inr target_dir
         \<and> mkdir lib target_dir fs = (fs1, None)
         \<and> p = path_div lib target_dir f
         \<and> write_text lib p (strip content) fs1 = (fs', None)"
  using assms
  by (auto simp: save_file_def Let_def split: sum.splits prod.splits option.splits)

text \<open>
  Claim C9.  Whatever content \<^verbatim>\<open>save_file\<close> is given, if it reports the file as
  saved at a path, then reading that path back gives the content with leading
  and trailing whitespace trimmed: the trimming is done at the write.  For a
  block built from a match, whose content is the matched text already
  trimmed at extraction, the two trimmings compose to one: the file holds the
  matched text trimmed, which is the block's content.  Reading back is any
  function \<open>rd\<close> that returns what a successful write has written.
\<close>

theorem save_file_round_trip:
  assumes "\<forall>p c fs fs'. write_text lib p c fs = (fs', None) \<longrightarrow> rd fs' p = Inr c"
    and "save_file lib f directory content output_dir fs = (fs', [Saved p])"
  shows "rd fs' p = Inr (strip content)
         \<and> (\<forall>g1 g2 g3 g4. content = file_content (block_of (g1, g2, g3, g4))
               \<longrightarrow> rd fs' p = Inr (strip g4) \<and> rd fs' p = Inr content)"
proof -
  from save_file_saved [OF assms(2)] obtain fs1 where
    "write_text lib p (strip content) fs1 = (fs', None)" by blast
  with assms(1) have r: "rd fs' p = Inr (strip content)" by blast
  have g: "rd fs' p = Inr (strip g4) \<and> rd fs' p = Inr content"
    if c: "content = file_content (block_of (g1, g2, g3, g4))" for g1 g2 g3 g4 :: string
  proof -
    from c have "strip content = strip g4" and "strip content = content"
      by (simp_all add: block_of_def strip_idem)
    with r show ?thesis by simp
  qed
  show ?thesis
  proof (intro conjI allI impI)
    show "rd fs' p = Inr (strip content)" by (rule r)
  next
    fix g1 g2 g3 g4 :: string
    assume "content = file_content (block_of (g1, g2, g3, g4))"
    from g [OF this] show "rd fs' p = Inr (strip g4)" by (rule conjunct1)
  next
    fix g1 g2 g3 g4 :: string
    assume "content = file_content (block_of (g1, g2, g3, g4))"
    from g [OF this] show "rd fs' p = Inr content" by (rule conjunct2)
  qed
qed

theorem save_file_round_trip_witness:
  "save_file toy_lib ''app.py'' [JStr ''backend''] [CHR '' '', nl, CHR ''x'', nl, CHR '' ''] ''out'' []
     = ([(''out/backend/app.py'', File ''x''), (''out/backend'', Dir)], [Saved ''out/backend/app.py''])
   \<and> toy_read [(''out/backend/app.py'', File ''x''), (''out/backend'', Dir)] ''out/backend/app.py''
     = Inr (strip [CHR '' '', nl, CHR ''x'', nl, CHR '' ''])
   \<and> strip [CHR '' '', nl, CHR ''x'', nl, CHR '' ''] = ''x''"
proof -
  let ?fs = "[(''out/backend/app.py'', File ''x''), (''out/backend'', Dir)]"
  let ?c = "[CHR '' '', nl, CHR ''x'', nl, CHR '' '']"
  have law: "\<forall>p c fs fs'. write_text toy_lib p c fs = (fs', None) \<longrightarrow> toy_read fs' p = Inr c"
    by (auto simp: toy_lib_def toy_write_def toy_read_def split: option.splits toy_node.splits)
  have c: "strip ?c = ''x''"
    by (simp add: strip_def is_space_def)
  have s: "save_file toy_lib ''app.py'' [JStr ''backend''] ?c ''out'' [] = (?fs, [Saved ''out/backend/app.py''])"
    by (simp add: c save_file_def Let_def toy_lib_def toy_mkdir_def toy_write_def)
  have r: "toy_read ?fs ''out/backend/app.py'' = Inr (strip ?c)"
    using save_file_round_trip [OF law s] by (rule conjunct1)
  from s r c show ?thesis by (intro conjI)
qed

lemma process_matches_append:
  "process_matches lib output_dir custom_patterns (xs @ ys) fs =
     (case process_matches lib output_dir custom_patterns xs fs of
        (fs1, log1, None) \<Rightarrow>
          (case process_matches lib output_dir custom_patterns ys fs1 of
             (fs2, log2, ex) \<Rightarrow> (fs2, log1 @ log2, ex))
      | (fs1, log1, Some e) \<Rightarrow> (fs1, log1, Some e))"
  by (induction xs arbitrary: fs)
     (auto simp: Let_def split: sum.splits prod.splits option.splits)

lemma process_matches_total:
  assumes "\<forall>m \<in> set ms. \<exists>r log. detect_language_and_directory lib (file_name (block_of m)) custom_patterns = Inr (r, log)"
  shows "\<exists>fs' log. process_matches lib output_dir custom_patterns ms fs = (fs', log, None)"
  using assms
proof (induction ms arbitrary: fs)
  case Nil
  then show ?case by simp
next
  case (Cons m ms)
  from Cons.prems obtain language directory dlog where
    d: "detect_language_and_directory lib (file_name (block_of m)) custom_patterns
          = Inr ((language, directory), dlog)"
    by fastforce
  obtain fs1 slog where
    s: "save_file lib (file_name (block_of m)) directory (file_content (block_of m)) output_dir fs
          = (fs1, slog)"
    by (cases "save_file lib (file_name (block_of m)) directory (file_content (block_of m)) output_dir fs")
  from Cons.IH [of fs1] Cons.prems obtain fs2 log where
    "process_matches lib output_dir custom_patterns ms fs1 = (fs2, log, None)"
    by auto
  with d s show ?case by (simp add: Let_def)
qed

lemma save_file_outcome:
  "\<exists>fs' ev. save_file lib f directory content output_dir fs = (fs', [ev])
            \<and> ((\<exists>p. ev = Saved p) \<or> (\<exists>e. ev = Failed_to_save f e))"
  by (auto simp: save_file_def Let_def split: sum.splits prod.splits option.splits)

lemma save_file_success:
  "joinpath lib output_dir directory = Inr d \<Longrightarrow> mkdir lib d fs = (fsa, None) \<Longrightarrow>
   write_text lib (path_div lib d f) (strip content) fsa = (fsb, None) \<Longrightarrow>
   save_file lib f directory content output_dir fs = (fsb, [Saved (path_div lib d f)])"
  by (simp add: save_file_def Let_def)

text \<open>
  Claim C7, as the code has it.  Take any block \<open>m0\<close> of the sequence, with the
  blocks \<open>pre\<close> before it and \<open>post\<close> after it, and let the blocks up to \<open>m0\<close> be
  classified without an exception.  Then \<^verbatim>\<open>save_file\<close> is run on \<open>m0\<close> and logs
  either that it was saved or that it failed (whatever the failure of the
  path, the directory creation or the write), and in both cases the loop goes
  on: the run is the run of the blocks after \<open>m0\<close> from the file system that
  \<open>m0\<close> left, with the logs in order.  A block whose own directory creation
  and write succeed is saved.  Classification is outside the \<^verbatim>\<open>try\<close>: if it
  raises for none of the blocks after \<open>m0\<close>, they are all processed and the run
  ends without an exception; if it raises for a block \<open>m1\<close> after \<open>m0\<close>, the
  blocks \<open>q\<close> between them are processed, the exception leaves the loop at
  \<open>m1\<close>, and the blocks after \<open>m1\<close> are neither classified nor written.
\<close>

theorem driver_continues_until_classification_raises:
  assumes "\<forall>m \<in> set pre. \<exists>r log.
             detect_language_and_directory lib (file_name (block_of m)) custom_patterns = Inr (r, log)"
    and "detect_language_and_directory lib (file_name (block_of m0)) custom_patterns
           = Inr ((language, directory), dlog)"
  shows "\<exists>fs1 log1 fs2 ev.
           process_matches lib output_dir custom_patterns pre fs = (fs1, log1, None)
         \<and> save_file lib (file_name (block_of m0)) directory (file_content (block_of m0)) output_dir fs1
             = (fs2, [ev])
         \<and> ((\<exists>p. ev = Saved p) \<or> (\<exists>e. ev = Failed_to_save (file_name (block_of m0)) e))
         \<and> process_matches lib output_dir custom_patterns (pre @ m0 # post) fs
             = (case process_matches lib output_dir custom_patterns post fs2 of
                  (fs3, log3, ex) \<Rightarrow>
                    (fs3, log1 @ Extracting (file_name (block_of m0)) (language_specifier (block_of m0))
                                 # dlog @ [ev] @ log3, ex))
         \<and> ((\<forall>m \<in> set post. \<exists>r log.
                detect_language_and_directory lib (file_name (block_of m)) custom_patterns = Inr (r, log))
              \<longrightarrow> (\<exists>fs3 log3. process_matches lib output_dir custom_patterns post fs2 = (fs3, log3, None)))
         \<and> (\<forall>q m1 others e.
               post = q @ m1 # others
               \<and> (\<forall>m \<in> set q. \<exists>r log.
                     detect_language_and_directory lib (file_name (block_of m)) custom_patterns = Inr (r, log))
               \<and> detect_language_and_directory lib (file_name (block_of m1)) custom_patterns = Inl e
               \<longrightarrow> (\<exists>fs3 log3.
                      process_matches lib output_dir custom_patterns q fs2 = (fs3, log3, None)
                    \<and> process_matches lib output_dir custom_patterns post fs2
                        = (fs3,
                           log3 @ [Extracting (file_name (block_of m1)) (language_specifier (block_of m1))],
                           Some e)))
         \<and> (\<forall>f dir content fsx d fsa fsb.
               joinpath lib output_dir dir = Inr d \<and> mkdir lib d fsx = (fsa, None)
               \<and> write_text lib (path_div lib d f) (strip content) fsa = (fsb, None)
               \<longrightarrow> save_file lib f dir content output_dir fsx = (fsb, [Saved (path_div lib d f)]))"
proof -
  from process_matches_total [OF assms(1)] obtain fs1 log1 where
    p1: "process_matches lib output_dir custom_patterns pre fs = (fs1, log1, None)" by blast
  from save_file_outcome [where lib = lib and f = "file_name (block_of m0)" and directory = directory
      and content = "file_content (block_of m0)" and output_dir = output_dir and fs = fs1]
  obtain fs2 ev where
    s: "save_file lib (file_name (block_of m0)) directory (file_content (block_of m0)) output_dir fs1
          = (fs2, [ev])"
    and ev: "(\<exists>p. ev = Saved p) \<or> (\<exists>e. ev = Failed_to_save (file_name (block_of m0)) e)"
    by blast
  have all: "process_matches lib output_dir custom_patterns (pre @ m0 # post) fs
      = (case process_matches lib output_dir custom_patterns post fs2 of
           (fs3, log3, ex) \<Rightarrow>
             (fs3, log1 @ Extracting (file_name (block_of m0)) (language_specifier (block_of m0))
                          # dlog @ [ev] @ log3, ex))"
    by (simp add: process_matches_append p1 assms(2) s Let_def split: prod.splits)
  have cont: "(\<forall>m \<in> set post. \<exists>r log.
        detect_language_and_directory lib (file_name (block_of m)) custom_patterns = Inr (r, log))
      \<longrightarrow> (\<exists>fs3 log3. process_matches lib output_dir custom_patterns post fs2 = (fs3, log3, None))"
    by (rule impI) (rule process_matches_total)
  have abort: "\<forall>q m1 others e.
      post = q @ m1 # others
      \<and> (\<forall>m \<in> set q. \<exists>r log.
            detect_language_and_directory lib (file_name (block_of m)) custom_patterns = Inr (r, log))
      \<and> detect_language_and_directory lib (file_name (block_of m1)) custom_patterns = Inl e
      \<longrightarrow> (\<exists>fs3 log3.
             process_matches lib output_dir custom_patterns q fs2 = (fs3, log3, None)
           \<and> process_matches lib output_dir custom_patterns post fs2
               = (fs3,
                  log3 @ [Extracting (file_name (block_of m1)) (language_specifier (block_of m1))],
                  Some e))"
  proof (intro allI impI, elim conjE)
    fix q m1 others e
    assume post: "post = q @ m1 # others"
      and q: "\<forall>m \<in> set q. \<exists>r log.
            detect_language_and_directory lib (file_name (block_of m)) custom_patterns = Inr (r, log)"
      and d: "detect_language_and_directory lib (file_name (block_of m1)) custom_patterns = Inl e"
    from process_matches_total [OF q, where output_dir = output_dir and fs = fs2]
    obtain fs3 log3 where
      pq: "process_matches lib output_dir custom_patterns q fs2 = (fs3, log3, None)" by blast
    have "process_matches lib output_dir custom_patterns (q @ m1 # others) fs2
        = (fs3, log3 @ [Extracting (file_name (block_of m1)) (language_specifier (block_of m1))], Some e)"
      by (simp add: process_matches_append pq d Let_def)
    with pq show "\<exists>fs3 log3.
             process_matches lib output_dir custom_patterns q fs2 = (fs3, log3, None)
           \<and> process_matches lib output_dir custom_patterns post fs2
               = (fs3,
                  log3 @ [Extracting (file_name (block_of m1)) (language_specifier (block_of m1))],
                  Some e)"
      unfolding post by (intro exI conjI)
  qed
  have succ: "\<forall>f dir content fsx d fsa fsb.
      joinpath lib output_dir dir = Inr d \<and> mkdir lib d fsx = (fsa, None)
      \<and> write_text lib (path_div lib d f) (strip content) fsa = (fsb, None)
      \<longrightarrow> save_file lib f dir content output_dir fsx = (fsb, [Saved (path_div lib d f)])"
    by (simp add: save_file_success)
  from p1 s ev all cont abort succ show ?thesis
    by - (rule exI conjI | assumption)+
qed

theorem driver_continues_until_classification_raises_witness:
  "process_matches toy_lib ''out'' None
     [(''a.py'', ''py'', [], ''x''), (''b.css'', ''css'', [], ''y''), (''c.md'', ''md'', [], ''z'')]
     [(''out/static/css'', File ''taken'')]
   = ([(''out/docs/c.md'', File ''z''), (''out/docs'', Dir),
       (''out/backend/a.py'', File ''x''), (''out/backend'', Dir),
       (''out/static/css'', File ''taken'')],
      [Extracting ''a.py'' [], Detected ''python'' ''a.py'', Saved ''out/backend/a.py'',
       Extracting ''b.css'' [], Detected ''css'' ''b.css'', Failed_to_save ''b.css'' OSError,
       Extracting ''c.md'' [], Detected ''markdown'' ''c.md'', Saved ''out/docs/c.md''],
      None)
   \<and> process_matches toy_lib ''out'' (Some [(''python'', ([JStr ''scripts''], ''^main''))])
     [(''a.css'', ''css'', [], ''y''), (''//[b.py'', ''py'', [], ''x''), (''c.md'', ''md'', [], ''z'')]
     [(''out/static/css'', File ''taken'')]
   = ([(''out/static/css'', File ''taken'')],
      [Extracting ''a.css'' [], Detected ''css'' ''a.css'', Failed_to_save ''a.css'' OSError,
       Extracting ''//[b.py'' []],
      Some ValueError)"
proof -
  let ?m1 = "(''a.py'', ''py'', [], ''x'')"
  let ?m2 = "(''b.css'', ''css'', [], ''y'')"
  let ?m3 = "(''c.md'', ''md'', [], ''z'')"
  let ?fs0 = "[(''out/static/css'', File ''taken'')]"
  let ?fs1 = "[(''out/backend/a.py'', File ''x''), (''out/backend'', Dir), (''out/static/css'', File ''taken'')]"
  have b1: "block_of ?m1 = \<lparr>file_name = ''a.py'', extension = ''py'', language_specifier = [], file_content = ''x''\<rparr>"
    and b2: "block_of ?m2 = \<lparr>file_name = ''b.css'', extension = ''css'', language_specifier = [], file_content = ''y''\<rparr>"
    and b3: "block_of ?m3 = \<lparr>file_name = ''c.md'', extension = ''md'', language_specifier = [], file_content = ''z''\<rparr>"
    by (simp_all add: block_of_def strip_def is_space_def)
  have sx: "strip ''x'' = ''x''" and sz: "strip ''z'' = ''z''"
    by (simp_all add: strip_def is_space_def)
  have d1: "detect_language_and_directory toy_lib ''a.py'' None
              = Inr ((''python'', [JStr ''backend'']), [Detected ''python'' ''a.py''])"
    and d2: "detect_language_and_directory toy_lib ''b.css'' None
              = Inr ((''css'', [JStr ''static'', JStr ''css'']), [Detected ''css'' ''b.css''])"
    and d3: "detect_language_and_directory toy_lib ''c.md'' None
              = Inr ((''markdown'', [JStr ''docs'']), [Detected ''markdown'' ''c.md''])"
    by (simp_all add: detect_language_and_directory_def merged_patterns_def default_patterns_def
        toy_lib_def toy_search_def ends_with_def lower_def)
  have h1: "\<forall>m \<in> set [?m1]. \<exists>r log.
      detect_language_and_directory toy_lib (file_name (block_of m)) None = Inr (r, log)"
    by (simp add: b1 d1)
  have h2: "detect_language_and_directory toy_lib (file_name (block_of ?m2)) None
      = Inr ((''css'', [JStr ''static'', JStr ''css'']), [Detected ''css'' ''b.css''])"
    by (simp add: b2 d2)
  from driver_continues_until_classification_raises [OF h1 h2, where output_dir = "''out''"
      and fs = ?fs0 and post = "[?m3]"]
  obtain fs1 log1 fs2 ev where
    p1: "process_matches toy_lib ''out'' None [?m1] ?fs0 = (fs1, log1, None)"
    and s: "save_file toy_lib (file_name (block_of ?m2)) [JStr ''static'', JStr ''css'']
              (file_content (block_of ?m2)) ''out'' fs1 = (fs2, [ev])"
    and all: "process_matches toy_lib ''out'' None ([?m1] @ ?m2 # [?m3]) ?fs0
              = (case process_matches toy_lib ''out'' None [?m3] fs2 of
                   (fs3, log3, ex) \<Rightarrow>
                     (fs3, log1 @ Extracting (file_name (block_of ?m2)) (language_specifier (block_of ?m2))
                                  # [Detected ''css'' ''b.css''] @ [ev] @ log3, ex))"
    by (elim exE conjE) (rule that)
  have e1: "process_matches toy_lib ''out'' None [?m1] ?fs0
              = (?fs1, [Extracting ''a.py'' [], Detected ''python'' ''a.py'', Saved ''out/backend/a.py''], None)"
    by (simp add: b1 d1 sx save_file_def Let_def)
       (simp add: Let_def sx sz toy_lib_def toy_mkdir_def toy_write_def)
  with p1 have v1: "fs1 = ?fs1"
    "log1 = [Extracting ''a.py'' [], Detected ''python'' ''a.py'', Saved ''out/backend/a.py'']"
    by simp_all
  have "save_file toy_lib ''b.css'' [JStr ''static'', JStr ''css''] ''y'' ''out'' ?fs1
          = (?fs1, [Failed_to_save ''b.css'' OSError])"
    by (simp add: save_file_def Let_def toy_lib_def toy_mkdir_def)
  with s have v3: "fs2 = ?fs1" "ev = Failed_to_save ''b.css'' OSError"
    by (simp_all add: b2 v1)
  have e3: "process_matches toy_lib ''out'' None [?m3] ?fs1
          = ((''out/docs/c.md'', File ''z'') # (''out/docs'', Dir) # ?fs1,
             [Extracting ''c.md'' [], Detected ''markdown'' ''c.md'', Saved ''out/docs/c.md''], None)"
    by (simp add: b3 d3 sz save_file_def Let_def)
       (simp add: Let_def sx sz toy_lib_def toy_mkdir_def toy_write_def)
  from all have run1: "process_matches toy_lib ''out'' None [?m1, ?m2, ?m3] ?fs0
     = ([(''out/docs/c.md'', File ''z''), (''out/docs'', Dir),
         (''out/backend/a.py'', File ''x''), (''out/backend'', Dir),
         (''out/static/css'', File ''taken'')],
        [Extracting ''a.py'' [], Detected ''python'' ''a.py'', Saved ''out/backend/a.py'',
         Extracting ''b.css'' [], Detected ''css'' ''b.css'', Failed_to_save ''b.css'' OSError,
         Extracting ''c.md'' [], Detected ''markdown'' ''c.md'', Saved ''out/docs/c.md''],
        None)"
    by (simp add: v1 v3 e3 b2 del: process_matches.simps)
  let ?c = "Some [(''python'', ([JStr ''scripts''], ''^main''))]"
  let ?n1 = "(''a.css'', ''css'', [], ''y'')"
  let ?n2 = "(''//[b.py'', ''py'', [], ''x'')"
  have c1: "block_of ?n1 = \<lparr>file_name = ''a.css'', extension = ''css'', language_specifier = [], file_content = ''y''\<rparr>"
    and c2: "block_of ?n2 = \<lparr>file_name = ''//[b.py'', extension = ''py'', language_specifier = [], file_content = ''x''\<rparr>"
    by (simp_all add: block_of_def strip_def is_space_def)
  have g1: "detect_language_and_directory toy_lib ''a.css'' ?c
              = Inr ((''css'', [JStr ''static'', JStr ''css'']), [Detected ''css'' ''a.css''])"
    and g2: "detect_language_and_directory toy_lib ''//[b.py'' ?c = Inl ValueError"
    by (simp_all add: detect_language_and_directory_def merged_patterns_def default_patterns_def
        toy_lib_def toy_search_def toy_guess_def ends_with_def lower_def)
  have k1: "\<forall>m \<in> set []. \<exists>r log.
      detect_language_and_directory toy_lib (file_name (block_of m)) ?c = Inr (r, log)"
    by simp
  have k2: "detect_language_and_directory toy_lib (file_name (block_of ?n1)) ?c
      = Inr ((''css'', [JStr ''static'', JStr ''css'']), [Detected ''css'' ''a.css''])"
    by (simp add: c1 g1)
  from driver_continues_until_classification_raises [OF k1 k2, where output_dir = "''out''"
      and fs = ?fs0 and post = "[?n2, ?m3]"]
  obtain gs1 glog1 gs2 gev where
    q1: "process_matches toy_lib ''out'' ?c [] ?fs0 = (gs1, glog1, None)"
    and t: "save_file toy_lib (file_name (block_of ?n1)) [JStr ''static'', JStr ''css'']
              (file_content (block_of ?n1)) ''out'' gs1 = (gs2, [gev])"
    and gall: "process_matches toy_lib ''out'' ?c ([] @ ?n1 # [?n2, ?m3]) ?fs0
              = (case process_matches toy_lib ''out'' ?c [?n2, ?m3] gs2 of
                   (fs3, log3, ex) \<Rightarrow>
                     (fs3, glog1 @ Extracting (file_name (block_of ?n1)) (language_specifier (block_of ?n1))
                                  # [Detected ''css'' ''a.css''] @ [gev] @ log3, ex))"
    and gabort: "\<forall>q m1 others e.
        [?n2, ?m3] = q @ m1 # others
        \<and> (\<forall>m \<in> set q. \<exists>r log.
              detect_language_and_directory toy_lib (file_name (block_of m)) ?c = Inr (r, log))
        \<and> detect_language_and_directory toy_lib (file_name (block_of m1)) ?c = Inl e
        \<longrightarrow> (\<exists>fs3 log3.
               process_matches toy_lib ''out'' ?c q gs2 = (fs3, log3, None)
             \<and> process_matches toy_lib ''out'' ?c [?n2, ?m3] gs2
                 = (fs3,
                    log3 @ [Extracting (file_name (block_of m1)) (language_specifier (block_of m1))],
                    Some e))"
    by (elim exE conjE) (rule that)
  from q1 have w1: "gs1 = ?fs0" "glog1 = []" by simp_all
  have "save_file toy_lib ''a.css'' [JStr ''static'', JStr ''css''] ''y'' ''out'' ?fs0
          = (?fs0, [Failed_to_save ''a.css'' OSError])"
    by (simp add: save_file_def Let_def toy_lib_def toy_mkdir_def)
  with t have w2: "gs2 = ?fs0" "gev = Failed_to_save ''a.css'' OSError"
    by (simp_all add: c1 w1)
  from gabort [rule_format, of "[]" ?n2 "[?m3]" ValueError]
  have "\<exists>fs3 log3.
          process_matches toy_lib ''out'' ?c [] gs2 = (fs3, log3, None)
        \<and> process_matches toy_lib ''out'' ?c [?n2, ?m3] gs2
            = (fs3, log3 @ [Extracting (file_name (block_of ?n2)) (language_specifier (block_of ?n2))],
               Some ValueError)"
    by (simp add: c2 g2 del: process_matches.simps)
  then have w3: "process_matches toy_lib ''out'' ?c [?n2, ?m3] ?fs0
      = (?fs0, [Extracting ''//[b.py'' []], Some ValueError)"
    by (auto simp: w2 c2 simp del: process_matches.simps(2))
  from gall have run2: "process_matches toy_lib ''out'' ?c [?n1, ?n2, ?m3] ?fs0
     = (?fs0,
        [Extracting ''a.css'' [], Detected ''css'' ''a.css'', Failed_to_save ''a.css'' OSError,
         Extracting ''//[b.py'' []],
        Some ValueError)"
    by (simp add: w1 w2 w3 c1 del: process_matches.simps)
  from run1 run2 show ?thesis by (rule conjI)
qed

text \<open>
  The claim as stated fails: it says that after a failed save every
  subsequent block is still classified and its write attempted.  With a rule
  \<^verbatim>\<open>javascript\<close> whose pattern \<^verbatim>\<open>(\<close> does not compile, the save of \<^verbatim>\<open>a.py\<close> fails
  (its directory \<^verbatim>\<open>out/backend\<close> is a file) and is logged, classifying \<^verbatim>\<open>b.css\<close>
  raises \<^verbatim>\<open>re.error\<close>, and \<^verbatim>\<open>c.md\<close> is never classified nor written.
\<close>

theorem driver_aborts_counterexample:
  "process_matches toy_lib ''out'' (Some [(''javascript'', ([JStr ''frontend''], ''(''))])
     [(''a.py'', ''py'', [], ''x''), (''b.css'', ''css'', [], ''y''), (''c.md'', ''md'', [], ''z'')]
     [(''out/backend'', File ''taken'')]
   = ([(''out/backend'', File ''taken'')],
      [Extracting ''a.py'' [], Detected ''python'' ''a.py'', Failed_to_save ''a.py'' OSError,
       Extracting ''b.css'' []],
      Some ReError)"
proof -
  let ?c = "Some [(''javascript'', ([JStr ''frontend''], ''(''))]"
  have b1: "block_of (''a.py'', ''py'', [], ''x'')
      = \<lparr>file_name = ''a.py'', extension = ''py'', language_specifier = [], file_content = ''x''\<rparr>"
    and b2: "block_of (''b.css'', ''css'', [], ''y'')
      = \<lparr>file_name = ''b.css'', extension = ''css'', language_specifier = [], file_content = ''y''\<rparr>"
    by (simp_all add: block_of_def strip_def is_space_def)
  have d1: "detect_language_and_directory toy_lib ''a.py'' ?c
              = Inr ((''python'', [JStr ''backend'']), [Detected ''python'' ''a.py''])"
    and d2: "detect_language_and_directory toy_lib ''b.css'' ?c = Inl ReError"
    by (simp_all add: detect_language_and_directory_def merged_patterns_def default_patterns_def
        toy_lib_def toy_search_def ends_with_def lower_def)
  have s1: "save_file toy_lib ''a.py'' [JStr ''backend''] ''x'' ''out'' [(''out/backend'', File ''taken'')]
      = ([(''out/backend'', File ''taken'')], [Failed_to_save ''a.py'' OSError])"
    by (simp add: save_file_def Let_def toy_lib_def toy_mkdir_def)
  show ?thesis
    by (simp add: b1 b2 d1 d2 s1 Let_def)
qed

section \<open>Properties of the matcher\<close>

declare finditer.simps [simp del]

lemma finditer_Nil: "match_here r p [] = None \<Longrightarrow> finditer r p [] = []"
  by (subst finditer.simps) simp

lemma finditer_skip: "match_here r p (c # cs) = None \<Longrightarrow> finditer r p (c # cs) = finditer r (Some c) cs"
  by (subst finditer.simps) simp

lemma finditer_match:
  "match_here r p s = Some m \<Longrightarrow> length (rest m) < length s \<Longrightarrow>
   finditer r p s = m # finditer r (prev m) (rest m)"
  by (subst finditer.simps) simp

lemma in_step:
  "m \<in> set (step P s) \<longleftrightarrow> (\<exists>c cs. rest s = c # cs \<and> P c \<and> m = s\<lparr>prev := Some c, rest := cs\<rparr>)"
  by (cases "rest s") (auto simp: step_def)

lemma in_star_greedy:
  "(q, r) \<in> set (star_greedy P p s) \<Longrightarrow>
   \<exists>xs. s = xs @ r \<and> (\<forall>c \<in> set xs. P c) \<and> q = (if xs = [] then p else Some (last xs))"
proof (induction s arbitrary: p)
  case Nil
  then show ?case by simp
next
  case (Cons c cs)
  show ?case
  proof (cases "(q, r) = (p, c # cs)")
    case True
    then show ?thesis by auto
  next
    case False
    with Cons.prems have "P c" and "(q, r) \<in> set (star_greedy P (Some c) cs)"
      by (auto split: if_splits)
    from Cons.IH [OF this(2)] obtain xs where
      "cs = xs @ r" "\<forall>c \<in> set xs. P c" "q = (if xs = [] then Some c else Some (last xs))"
      by blast
    with \<open>P c\<close> show ?thesis
      by (intro exI [of _ "c # xs"]) auto
  qed
qed

lemma in_star_lazy:
  "(q, r) \<in> set (star_lazy P p s) \<Longrightarrow>
   \<exists>xs. s = xs @ r \<and> (\<forall>c \<in> set xs. P c) \<and> q = (if xs = [] then p else Some (last xs))"
proof (induction s arbitrary: p)
  case Nil
  then show ?case by simp
next
  case (Cons c cs)
  show ?case
  proof (cases "(q, r) = (p, c # cs)")
    case True
    then show ?thesis by auto
  next
    case False
    with Cons.prems have "P c" and "(q, r) \<in> set (star_lazy P (Some c) cs)"
      by (auto split: if_splits)
    from Cons.IH [OF this(2)] obtain xs where
      "cs = xs @ r" "\<forall>c \<in> set xs. P c" "q = (if xs = [] then Some c else Some (last xs))"
      by blast
    with \<open>P c\<close> show ?thesis
      by (intro exI [of _ "c # xs"]) auto
  qed
qed

lemma consumed_trans: "consumed s xs t \<Longrightarrow> consumed t ys m \<Longrightarrow> consumed s (xs @ ys) m"
  by (auto simp: consumed_def)

lemma consumed_refl: "consumed s [] s"
  by (simp add: consumed_def)

lemma rmatch_consumed: "m \<in> set (rmatch r s) \<Longrightarrow> \<exists>xs. consumed s xs m"
proof (induction r arbitrary: s m)
  case Eps
  then show ?case by (auto intro: consumed_refl)
next
  case (Lit c)
  then show ?case by (auto simp: in_step consumed_def intro!: exI [of _ "[c]"])
next
  case (Cls P)
  then obtain c where "rest s = c # rest m" "prev m = Some c" by (auto simp: in_step)
  then show ?case by (auto simp: consumed_def intro!: exI [of _ "[c]"])
next
  case (Seq a b)
  then obtain t where "t \<in> set (rmatch a s)" "m \<in> set (rmatch b t)" by auto
  with Seq.IH show ?case by (blast intro: consumed_trans)
next
  case (Alt a b)
  then show ?case by auto
next
  case (Opt a)
  then show ?case by (auto intro: consumed_refl)
next
  case (Star P)
  then obtain q r where "(q, r) \<in> set (star_greedy P (prev s) (rest s))" "m = move s (q, r)"
    by auto
  with in_star_greedy [of q r P "prev s" "rest s"] show ?case
    by (auto simp: consumed_def move_def)
next
  case (Plus P)
  then obtain t q r where t: "t \<in> set (step P s)"
    and "(q, r) \<in> set (star_greedy P (prev t) (rest t))" "m = move t (q, r)"
    by auto
  with in_star_greedy [of q r P "prev t" "rest t"] obtain ys where
    ys: "consumed t ys m" by (auto simp: consumed_def move_def)
  from t obtain c where "consumed s [c] t" by (auto simp: in_step consumed_def)
  with ys show ?case by (blast intro: consumed_trans)
next
  case (StarLazy P)
  then obtain q r where "(q, r) \<in> set (star_lazy P (prev s) (rest s))" "m = move s (q, r)"
    by auto
  with in_star_lazy [of q r P "prev s" "rest s"] show ?case
    by (auto simp: consumed_def move_def)
next
  case (Grp n a)
  then obtain t where "t \<in> set (rmatch a s)" "m = capture n s t" by auto
  with Grp.IH [of t s] show ?case by (auto simp: consumed_def capture_def)
next
  case Bol
  then show ?case by (auto intro: consumed_refl split: if_splits)
next
  case EndZ
  then show ?case by (auto intro: consumed_refl split: if_splits)
next
  case (Ahead a)
  then show ?case by (auto intro: consumed_refl split: if_splits)
qed

lemma rmatch_str_re:
  "rmatch (str_re w) s =
     (if take (length w) (rest s) = w
      then [s\<lparr>prev := (if w = [] then prev s else Some (last w)), rest := drop (length w) (rest s)\<rparr>]
      else [])"
proof (induction w arbitrary: s)
  case Nil
  then show ?case by simp
next
  case (Cons c w)
  show ?case
    by (cases "rest s") (auto simp: step_def Cons)
qed

lemma no_match_without_hash:
  "rest s = [] \<or> hd (rest s) \<noteq> CHR ''#'' \<Longrightarrow> rmatch file_pattern s = []"
  by (cases "rest s") (auto simp: file_pattern_def heading_re_def step_def)

lemma finditer_without_hash: "CHR ''#'' \<notin> set s \<Longrightarrow> finditer file_pattern p s = []"
proof (induction s arbitrary: p)
  case Nil
  then show ?case
    by (simp add: finditer_Nil match_here_def no_match_without_hash)
next
  case (Cons c cs)
  have "rmatch file_pattern \<lparr>prev = p, rest = c # cs, caps = (\<lambda>_. None)\<rparr> = []"
    by (rule no_match_without_hash) (use Cons.prems in auto)
  then have "match_here file_pattern p (c # cs) = None"
    by (simp add: match_here_def)
  with Cons show ?case by (simp add: finditer_skip)
qed

lemma rmatch_caps: "m \<in> set (rmatch r s) \<Longrightarrow> n \<notin> groups_of r \<Longrightarrow> caps m n = caps s n"
proof (induction r arbitrary: s m)
  case (Seq a b)
  then obtain t where "t \<in> set (rmatch a s)" "m \<in> set (rmatch b t)" by auto
  with Seq show ?case by (metis UnCI groups_of.simps(1))
next
  case (Grp k a)
  then obtain t where "t \<in> set (rmatch a s)" "m = capture k s t" by auto
  with Grp show ?case by (auto simp: capture_def)
qed (auto simp: in_step move_def split: if_splits)

lemma finditer_elems:
  "m \<in> set (finditer r p s) \<Longrightarrow>
   \<exists>p' s'. m \<in> set (rmatch r \<lparr>prev = p', rest = s', caps = (\<lambda>_. None)\<rparr>)"
proof (induction r p s rule: finditer.induct)
  case (1 r p s)
  show ?case
  proof (cases "match_here r p s")
    case None
    with "1.prems" "1.IH"(1) show ?thesis
      by (subst (asm) finditer.simps) (auto split: list.splits)
  next
    case (Some m')
    then have m': "m' \<in> set (rmatch r \<lparr>prev = p, rest = s, caps = (\<lambda>_. None)\<rparr>)"
      by (auto simp: match_here_def split: list.splits)
    from "1.prems" Some have
      "m = m' \<or> (length (rest m') < length s \<and> m \<in> set (finditer r (prev m') (rest m')))
       \<or> (\<not> length (rest m') < length s \<and> (\<exists>c cs. s = c # cs \<and> m \<in> set (finditer r (Some c) cs)))"
      by (subst (asm) finditer.simps) (auto split: list.splits if_splits)
    with m' "1.IH"(2,3) Some show ?thesis
      by blast
  qed
qed

text \<open>
  Claim C8.  When the input file can be read and the scan of its content finds
  no block, the run logs the error \<^verbatim>\<open>No files found in the markdown.\<close>, leaves
  the file system as it was and ends without an exception; and the scan of a
  document that is empty or consists of whitespace finds no block.
\<close>

theorem no_blocks_reported:
  assumes "isfile lib fs file_path" and "read_text lib fs file_path = Inr content"
  shows "(scan content = [] \<longrightarrow>
            extract_full_files lib file_path output_dir custom_patterns fs
              = (fs, [Processing_file file_path, No_files_found], None))
         \<and> ((\<forall>c \<in> set content. is_space c) \<longrightarrow>
              scan content = []
              \<and> extract_full_files lib file_path output_dir custom_patterns fs
                  = (fs, [Processing_file file_path, No_files_found], None))"
proof -
  have run: "extract_full_files lib file_path output_dir custom_patterns fs
              = (fs, [Processing_file file_path, No_files_found], None)"
    if "scan content = []"
    using that assms by (simp add: extract_full_files_def scan_def)
  have blank: "scan content = []" if "\<forall>c \<in> set content. is_space c"
  proof -
    have "\<not> is_space CHR ''#''" by (simp add: is_space_def)
    with that have "CHR ''#'' \<notin> set content" by blast
    then show ?thesis
      by (simp add: scan_def findall_def finditer_without_hash)
  qed
  from run blank show ?thesis by blast
qed

theorem no_blocks_reported_witness:
  "isfile toy_lib [(''in.md'', File [CHR '' '', nl, CHR '' ''])] ''in.md''
   \<and> read_text toy_lib [(''in.md'', File [CHR '' '', nl, CHR '' ''])] ''in.md'' = Inr [CHR '' '', nl, CHR '' '']
   \<and> scan [CHR '' '', nl, CHR '' ''] = []
   \<and> extract_full_files toy_lib ''in.md'' ''out'' None [(''in.md'', File [CHR '' '', nl, CHR '' ''])]
       = ([(''in.md'', File [CHR '' '', nl, CHR '' ''])], [Processing_file ''in.md'', No_files_found], None)"
proof -
  let ?fs = "[(''in.md'', File [CHR '' '', nl, CHR '' ''])]"
  have h1: "isfile toy_lib ?fs ''in.md''"
    by (simp add: toy_lib_def toy_isfile_def)
  have h2: "read_text toy_lib ?fs ''in.md'' = Inr [CHR '' '', nl, CHR '' '']"
    by (simp add: toy_lib_def toy_read_def)
  have ws: "\<forall>c \<in> set [CHR '' '', nl, CHR '' '']. is_space c"
    by (simp add: is_space_def)
  from no_blocks_reported [OF h1 h2, of "''out''" None] ws h1 h2 show ?thesis
    by blast
qed

lemma in_Seq: "m \<in> set (rmatch (Seq a b) s) \<longleftrightarrow> (\<exists>t \<in> set (rmatch a s). m \<in> set (rmatch b t))"
  by simp

lemma in_Grp: "m \<in> set (rmatch (Grp n a) s) \<longleftrightarrow> (\<exists>t \<in> set (rmatch a s). m = capture n s t)"
  by auto

lemma in_Lit:
  "m \<in> set (rmatch (Lit c) s) \<longleftrightarrow> (\<exists>cs. rest s = c # cs \<and> m = s\<lparr>prev := Some c, rest := cs\<rparr>)"
  by (auto simp: in_step)

lemma in_str_re:
  "m \<in> set (rmatch (str_re w) s) \<Longrightarrow> rest s = w @ rest m \<and> caps m = caps s"
  by (auto simp: rmatch_str_re split: if_splits) (metis append_take_drop_id)

lemma groups_of_str_re: "groups_of (str_re w) = {}"
  by (induction w) auto

lemma in_extension_re:
  assumes "m \<in> set (rmatch extension_re s)"
  shows "\<exists>e \<in> set extensions. rest s = e @ rest m \<and> caps m = caps s"
proof -
  from assms obtain w where "w \<in> set extensions" "m \<in> set (rmatch (str_re w) s)"
    unfolding extension_re_def extensions_def rmatch.simps(5) set_append Un_iff
    by (elim disjE) (simp_all only: list.set insert_iff, blast+)
  then show ?thesis by (blast dest: in_str_re)
qed

lemma in_star:
  assumes "m \<in> set (rmatch (Star P) s)"
  shows "\<exists>xs. (\<forall>c \<in> set xs. P c) \<and> rest s = xs @ rest m \<and> caps m = caps s"
proof -
  from assms obtain q r where "(q, r) \<in> set (star_greedy P (prev s) (rest s))" "m = move s (q, r)"
    by auto
  with in_star_greedy [of q r P "prev s" "rest s"] show ?thesis
    by (auto simp: move_def)
qed

lemma in_plus:
  assumes "m \<in> set (rmatch (Plus P) s)"
  shows "\<exists>xs. xs \<noteq> [] \<and> (\<forall>c \<in> set xs. P c) \<and> rest s = xs @ rest m \<and> caps m = caps s"
proof -
  from assms obtain t q r where t: "t \<in> set (step P s)"
    and qr: "(q, r) \<in> set (star_greedy P (prev t) (rest t))" and m: "m = move t (q, r)"
    by auto
  from t obtain c where c: "P c" "rest s = c # rest t" "caps t = caps s"
    by (auto simp: in_step)
  from in_star_greedy [OF qr] obtain xs where "rest t = xs @ r" "\<forall>c \<in> set xs. P c"
    by blast
  with c m show ?thesis
    by (intro exI [of _ "c # xs"]) (auto simp: move_def)
qed

lemma heading_groups:
  assumes "h \<in> set (rmatch heading_re s)"
  shows "\<exists>stem ext sp1 sp2.
           caps h 1 = Some sp1 \<and> span_text sp1 = stem @ CHR ''.'' # ext
         \<and> caps h 2 = Some sp2 \<and> span_text sp2 = ext
         \<and> stem \<noteq> [] \<and> (\<forall>c \<in> set stem. non_space c) \<and> ext \<in> set extensions"
proof -
  let ?X = "Seq (Plus non_space) (Seq (Lit CHR ''.'') (Grp 2 extension_re))"
  let ?T = "Seq (Star is_space) (Lit nl)"
  from assms obtain s3 g where g: "g \<in> set (rmatch (Grp 1 ?X) s3)" and h: "h \<in> set (rmatch ?T g)"
    unfolding heading_re_def in_Seq by blast
  from g obtain x where x: "x \<in> set (rmatch ?X s3)" and gx: "g = capture 1 s3 x"
    unfolding in_Grp by blast
  from x obtain y z where y: "y \<in> set (rmatch (Plus non_space) s3)"
    and z: "z \<in> set (rmatch (Lit CHR ''.'') y)" and xz: "x \<in> set (rmatch (Grp 2 extension_re) z)"
    unfolding in_Seq by blast
  from xz obtain e where e: "e \<in> set (rmatch extension_re z)" and xe: "x = capture 2 z e"
    unfolding in_Grp by blast
  from in_plus [OF y] obtain stem where stem: "stem \<noteq> []" "\<forall>c \<in> set stem. non_space c"
    "rest s3 = stem @ rest y" by blast
  from z [unfolded in_Lit] have ry: "rest y = CHR ''.'' # rest z" by auto
  from in_extension_re [OF e] obtain ext where ext: "ext \<in> set extensions" "rest z = ext @ rest e"
    by blast
  have c1: "caps h 1 = caps g 1" and c2: "caps h 2 = caps g 2"
    by (rule rmatch_caps [OF h], simp)+
  have g1: "caps g 1 = Some \<lparr>sp_prev = prev s3, sp_from = rest s3, sp_to = rest e\<rparr>"
    by (simp add: gx xe capture_def)
  have g2: "caps g 2 = Some \<lparr>sp_prev = prev z, sp_from = rest z, sp_to = rest e\<rparr>"
    by (simp add: gx xe capture_def)
  have t1: "span_text \<lparr>sp_prev = prev s3, sp_from = rest s3, sp_to = rest e\<rparr> = stem @ CHR ''.'' # ext"
    by (simp add: span_text_def stem ry ext)
  have t2: "span_text \<lparr>sp_prev = prev z, sp_from = rest z, sp_to = rest e\<rparr> = ext"
    by (simp add: span_text_def ext)
  from c1 c2 g1 g2 t1 t2 stem ext show ?thesis by metis
qed

lemma file_pattern_groups:
  assumes "m \<in> set (rmatch file_pattern s)"
  shows "\<exists>stem ext. group m 1 = stem @ CHR ''.'' # ext \<and> group m 2 = ext
         \<and> stem \<noteq> [] \<and> (\<forall>c \<in> set stem. non_space c) \<and> ext \<in> set extensions"
proof -
  from assms obtain h where h: "h \<in> set (rmatch heading_re s)"
    and m: "m \<in> set (rmatch (Seq fence_open_re content_re) h)"
    unfolding file_pattern_def in_Seq by blast
  have g: "groups_of (Seq fence_open_re content_re) = {3, 4}"
    by (auto simp: fence_open_re_def content_re_def groups_of_str_re)
  have "caps m 1 = caps h 1" "caps m 2 = caps h 2"
    by (rule rmatch_caps [OF m], simp only: g, simp)+
  with heading_groups [OF h] show ?thesis
    by (fastforce simp: group_def)
qed

lemma strip_no_space_ends:
  assumes "s \<noteq> []" "\<not> is_space (hd s)" "\<not> is_space (last s)"
  shows "strip s = s"
proof -
  have "dropWhile is_space s = s" using assms by (cases s) auto
  moreover have "dropWhile is_space (rev s) = rev s"
    using assms by (cases "rev s") (auto simp: hd_rev [symmetric])
  ultimately show ?thesis by (simp add: strip_def)
qed

lemma extension_chars: "e \<in> set extensions \<Longrightarrow> e \<noteq> [] \<and> (\<forall>c \<in> set e. \<not> is_space c \<and> c \<noteq> CHR ''.'')"
  by (auto simp: extensions_def is_space_def)

text \<open>
  Claim C10.  Every block that the scanner emits, for every document, has a file
  name without whitespace that is a non-empty stem, a dot and one of the nine
  extensions, and its declared extension is that extension.
\<close>

theorem block_names_well_formed:
  "\<forall>b \<in> set (scan doc).
     (\<forall>c \<in> set (file_name b). \<not> is_space c)
     \<and> extension b \<in> set extensions
     \<and> (\<exists>stem. stem \<noteq> [] \<and> file_name b = stem @ ''.'' @ extension b)"
proof
  fix b assume "b \<in> set (scan doc)"
  then obtain m where m: "m \<in> set (finditer file_pattern None doc)"
    and b: "b = block_of (group m 1, group m 2, group m 3, group m 4)"
    by (auto simp: scan_def findall_def)
  from finditer_elems [OF m] obtain p' s' where
    "m \<in> set (rmatch file_pattern \<lparr>prev = p', rest = s', caps = (\<lambda>_. None)\<rparr>)" by blast
  from file_pattern_groups [OF this] obtain stem ext where
    g1: "group m 1 = stem @ CHR ''.'' # ext" and g2: "group m 2 = ext"
    and stem: "stem \<noteq> []" "\<forall>c \<in> set stem. non_space c" and ext: "ext \<in> set extensions"
    by blast
  from extension_chars [OF ext] have e: "ext \<noteq> []" "\<forall>c \<in> set ext. \<not> is_space c" by auto
  have s2: "strip ext = ext"
    using e by (intro strip_no_space_ends) auto
  have s1: "strip (stem @ CHR ''.'' # ext) = stem @ CHR ''.'' # ext"
    using e stem by (intro strip_no_space_ends) (auto simp: non_space_def)
  have fn: "file_name b = stem @ CHR ''.'' # ext" and ex: "extension b = ext"
    by (simp_all add: b block_of_def g1 g2 s1 s2 del: One_nat_def)
  have "\<forall>c \<in> set (file_name b). \<not> is_space c"
    using stem e by (auto simp: fn non_space_def is_space_def)
  with fn ex ext stem show "(\<forall>c \<in> set (file_name b). \<not> is_space c)
     \<and> extension b \<in> set extensions
     \<and> (\<exists>stem. stem \<noteq> [] \<and> file_name b = stem @ ''.'' @ extension b)"
    by auto
qed

theorem block_names_well_formed_witness:
  "scan (''# app.json'' @ [nl] @ ''{}'' @ [nl])
     = [\<lparr>file_name = ''app.json'', extension = ''json'', language_specifier = [], file_content = ''{}''\<rparr>]
   \<and> list_all (\<lambda>b. list_all (\<lambda>c. \<not> is_space c) (file_name b)
                  \<and> extension b \<in> set extensions
                  \<and> (\<exists>stem. stem \<noteq> [] \<and> file_name b = stem @ ''.'' @ extension b))
        (scan (''# app.json'' @ [nl] @ ''{}'' @ [nl]))"
proof -
  have "scan (''# app.json'' @ [nl] @ ''{}'' @ [nl])
     = [\<lparr>file_name = ''app.json'', extension = ''json'', language_specifier = [], file_content = ''{}''\<rparr>]"
    by code_simp
  with block_names_well_formed [of "''# app.json'' @ [nl] @ ''{}'' @ [nl]"] show ?thesis
    unfolding list_all_iff by blast
qed

subsection \<open>Where the content of a block ends\<close>

declare str_re.simps [simp del]

lemma any_char_True: "any_char c"
  by (simp add: any_char_def non_space_def)

lemma hd_concat_map:
  "xs \<noteq> [] \<Longrightarrow> f (hd xs) \<noteq> [] \<Longrightarrow> hd (concat (map f xs)) = hd (f (hd xs))"
  by (cases xs) auto

lemma char_before_Suc: "char_before p (c # cs) (Suc i) = char_before (Some c) cs i"
  by (cases i) (simp_all add: char_before_def)

lemma lazy_first:
  assumes f: "\<And>q r. f (q, r) \<noteq> [] \<longleftrightarrow> B q r" and e: "\<And>q. B q []"
  shows "\<exists>j \<le> length s.
           (\<forall>i < j. \<not> B (char_before p s i) (drop i s))
         \<and> B (char_before p s j) (drop j s)
         \<and> concat (map f (star_lazy any_char p s)) \<noteq> []
         \<and> hd (concat (map f (star_lazy any_char p s))) = hd (f (char_before p s j, drop j s))"
proof (induction s arbitrary: p)
  case Nil
  have "f (p, []) \<noteq> []" using f e by blast
  then show ?case using e by (simp add: char_before_def)
next
  case (Cons c cs)
  show ?case
  proof (cases "B p (c # cs)")
    case True
    then have "f (p, c # cs) \<noteq> []" using f by blast
    with True show ?thesis
      by (intro exI [of _ 0]) (simp add: char_before_def)
  next
    case False
    then have n: "f (p, c # cs) = []" using f by blast
    from Cons [of "Some c"] obtain j where j: "j \<le> length cs"
      "\<forall>i < j. \<not> B (char_before (Some c) cs i) (drop i cs)"
      "B (char_before (Some c) cs j) (drop j cs)"
      "concat (map f (star_lazy any_char (Some c) cs)) \<noteq> []"
      "hd (concat (map f (star_lazy any_char (Some c) cs))) = hd (f (char_before (Some c) cs j, drop j cs))"
      by blast
    have nb: "\<not> B (char_before p (c # cs) i) (drop i (c # cs))" if "i < Suc j" for i
    proof (cases i)
      case 0
      with False show ?thesis by (simp add: char_before_def)
    next
      case (Suc k)
      with that j(2) show ?thesis by (simp add: char_before_Suc)
    qed
    have sl: "star_lazy any_char p (c # cs) = (p, c # cs) # star_lazy any_char (Some c) cs"
      by (simp only: star_lazy.simps any_char_True if_True)
    from j n nb show ?thesis
      by (intro exI [of _ "Suc j"]) (simp add: sl char_before_Suc del: star_lazy.simps)
  qed
qed

lemma terminator_nonempty:
  "rmatch (Alt (str_re ''```'') (Ahead (Alt (Seq Bol (str_re ''# '')) EndZ))) s \<noteq> []
     \<longleftrightarrow> is_boundary (prev s) (rest s)"
proof -
  have a: "rmatch (str_re ''```'') s \<noteq> [] \<longleftrightarrow> starts_with ''```'' (rest s)"
    by (simp add: rmatch_str_re starts_with_def)
  have b: "rmatch (Seq Bol (str_re ''# '')) s \<noteq> [] \<longleftrightarrow> at_line_start (prev s) \<and> starts_with ''# '' (rest s)"
  proof (cases "at_line_start (prev s)")
    case True
    then have "rmatch (Seq Bol (str_re ''# '')) s = rmatch (str_re ''# '') s"
      by (simp add: at_line_start_def)
    with True show ?thesis
      by (simp add: rmatch_str_re starts_with_def del: rmatch.simps)
  next
    case False
    then have "rmatch (Seq Bol (str_re ''# '')) s = []"
      by (auto simp: at_line_start_def)
    with False show ?thesis by (simp del: rmatch.simps)
  qed
  have c: "rmatch EndZ s \<noteq> [] \<longleftrightarrow> rest s = []"
    by simp
  have "rmatch (Alt (str_re ''```'') (Ahead (Alt (Seq Bol (str_re ''# '')) EndZ))) s \<noteq> []
        \<longleftrightarrow> rmatch (str_re ''```'') s \<noteq> [] \<or> rmatch (Seq Bol (str_re ''# '')) s \<noteq> []
            \<or> rmatch EndZ s \<noteq> []"
    by (simp del: rmatch.simps(4) rmatch.simps(11) rmatch.simps(12))
  then show ?thesis
    unfolding a b c is_boundary_def by blast
qed

lemma in_terminator:
  assumes "m \<in> set (rmatch (Alt (str_re ''```'') (Ahead (Alt (Seq Bol (str_re ''# '')) EndZ))) s)"
  shows "caps m = caps s \<and> (rest m = rest s \<and> prev m = prev s \<or> rest s = ''```'' @ rest m)"
proof -
  from assms have "m \<in> set (rmatch (str_re ''```'') s) \<or> m = s"
    by (auto simp del: rmatch.simps(4) split: if_splits)
  then show ?thesis
    by (auto dest: in_str_re simp del: rmatch.simps)
qed

lemma content_first:
  "\<exists>j \<le> length (rest c).
      rmatch content_re c \<noteq> []
    \<and> (\<forall>i < j. \<not> is_boundary (char_before (prev c) (rest c) i) (drop i (rest c)))
    \<and> is_boundary (char_before (prev c) (rest c) j) (drop j (rest c))
    \<and> caps (hd (rmatch content_re c)) 4
        = Some \<lparr>sp_prev = prev c, sp_from = rest c, sp_to = drop j (rest c)\<rparr>
    \<and> (\<forall>n. n \<noteq> 4 \<longrightarrow> caps (hd (rmatch content_re c)) n = caps c n)
    \<and> (rest (hd (rmatch content_re c)) = drop j (rest c)
         \<and> prev (hd (rmatch content_re c)) = char_before (prev c) (rest c) j
        \<or> drop j (rest c) = ''```'' @ rest (hd (rmatch content_re c)))"
proof -
  let ?T = "Alt (str_re ''```'') (Ahead (Alt (Seq Bol (str_re ''# '')) EndZ))"
  define f where "f = (\<lambda>qr. rmatch ?T (capture 4 c (move c qr)))"
  have r: "rmatch content_re c = concat (map f (star_lazy any_char (prev c) (rest c)))"
    by (simp add: content_re_def f_def comp_def del: rmatch.simps(5))
  have fB: "f (q, r) \<noteq> [] \<longleftrightarrow> is_boundary q r" for q r
    unfolding f_def terminator_nonempty by (simp add: capture_def move_def)
  have e: "is_boundary q []" for q by (simp add: is_boundary_def)
  from lazy_first [of f is_boundary, OF fB e, of "rest c" "prev c"] obtain j where j: "j \<le> length (rest c)"
    "\<forall>i < j. \<not> is_boundary (char_before (prev c) (rest c) i) (drop i (rest c))"
    "is_boundary (char_before (prev c) (rest c) j) (drop j (rest c))"
    "rmatch content_re c \<noteq> []"
    "hd (rmatch content_re c) = hd (f (char_before (prev c) (rest c) j, drop j (rest c)))"
    unfolding r by blast
  let ?x = "capture 4 c (move c (char_before (prev c) (rest c) j, drop j (rest c)))"
  have "f (char_before (prev c) (rest c) j, drop j (rest c)) \<noteq> []"
    using fB j(3) by blast
  then have "hd (rmatch content_re c) \<in> set (rmatch ?T ?x)"
    unfolding j(5) f_def by (rule hd_in_set)
  from in_terminator [OF this] have
    "caps (hd (rmatch content_re c)) = caps ?x"
    "rest (hd (rmatch content_re c)) = rest ?x \<and> prev (hd (rmatch content_re c)) = prev ?x
     \<or> rest ?x = ''```'' @ rest (hd (rmatch content_re c))"
    by blast+
  then have "caps (hd (rmatch content_re c)) 4
        = Some \<lparr>sp_prev = prev c, sp_from = rest c, sp_to = drop j (rest c)\<rparr>"
    "\<forall>n. n \<noteq> 4 \<longrightarrow> caps (hd (rmatch content_re c)) n = caps c n"
    "rest (hd (rmatch content_re c)) = drop j (rest c)
       \<and> prev (hd (rmatch content_re c)) = char_before (prev c) (rest c) j
     \<or> drop j (rest c) = ''```'' @ rest (hd (rmatch content_re c))"
    by (simp_all add: capture_def move_def)
  with j show ?thesis by blast
qed

lemma fence_open_nonempty: "rmatch fence_open_re h \<noteq> []"
  by (simp add: fence_open_re_def del: rmatch.simps(4))

lemma content_nonempty: "rmatch content_re c \<noteq> []"
  using content_first [of c] by blast

lemma file_pattern_first:
  assumes "rmatch heading_re s \<noteq> []"
  shows "rmatch file_pattern s \<noteq> []
       \<and> hd (rmatch file_pattern s)
           = hd (rmatch content_re (hd (rmatch fence_open_re (hd (rmatch heading_re s)))))"
proof -
  let ?g = "\<lambda>h. concat (map (rmatch content_re) (rmatch fence_open_re h))"
  have g: "?g h \<noteq> [] \<and> hd (?g h) = hd (rmatch content_re (hd (rmatch fence_open_re h)))" for h
    using fence_open_nonempty [of h] content_nonempty
    by (cases "rmatch fence_open_re h") auto
  have "rmatch (Seq fence_open_re content_re) = ?g"
    by (rule ext) simp
  then have "rmatch file_pattern s = concat (map ?g (rmatch heading_re s))"
    by (simp add: file_pattern_def)
  with assms g show ?thesis
    by (cases "rmatch heading_re s") auto
qed

lemma file_pattern_needs_heading: "rmatch file_pattern s \<noteq> [] \<Longrightarrow> rmatch heading_re s \<noteq> []"
  by (auto simp: file_pattern_def)

lemma char_before_end: "char_before p (a @ b) (length a) = (if a = [] then p else Some (last a))"
  by (cases a rule: rev_cases) (simp_all add: char_before_def nth_append)

lemma match_here_elem:
  "match_here r p s = Some m \<Longrightarrow>
   rmatch r \<lparr>prev = p, rest = s, caps = (\<lambda>_. None)\<rparr> \<noteq> []
   \<and> m = hd (rmatch r \<lparr>prev = p, rest = s, caps = (\<lambda>_. None)\<rparr>)"
  by (auto simp: match_here_def split: list.splits)

lemma match_here_consumed:
  assumes "match_here r p s = Some m"
  shows "\<exists>xs. s = xs @ rest m \<and> prev m = (if xs = [] then p else Some (last xs))"
proof -
  from match_here_elem [OF assms] have "m \<in> set (rmatch r \<lparr>prev = p, rest = s, caps = (\<lambda>_. None)\<rparr>)"
    by simp
  from rmatch_consumed [OF this] obtain xs where "consumed \<lparr>prev = p, rest = s, caps = (\<lambda>_. None)\<rparr> xs m"
    by blast
  then show ?thesis
    by (intro exI [of _ xs]) (simp add: consumed_def)
qed

lemma finditer_cases:
  assumes "m \<in> set (finditer r p s)"
  shows "(match_here r p s = None \<and> (\<exists>c cs. s = c # cs \<and> m \<in> set (finditer r (Some c) cs)))
       \<or> (\<exists>m'. match_here r p s = Some m'
             \<and> (m = m'
                \<or> (length (rest m') < length s \<and> m \<in> set (finditer r (prev m') (rest m')))
                \<or> (\<not> length (rest m') < length s \<and> (\<exists>c cs. s = c # cs \<and> m \<in> set (finditer r (Some c) cs)))))"
proof (cases "match_here r p s")
  case None
  with assms show ?thesis
    by (subst (asm) finditer.simps) (cases s; simp)
next
  case (Some m')
  with assms show ?thesis
    by (subst (asm) finditer.simps) (cases s; cases "length (rest m') < length s"; simp)
qed

lemma finditer_positions:
  "m \<in> set (finditer r p s) \<Longrightarrow>
   \<exists>pre s'. s = pre @ s' \<and> match_here r (char_before p s (length pre)) s' = Some m"
proof (induction r p s rule: finditer.induct)
  case (1 r p s)
  have skip: ?case if s: "s = c # cs"
    and ih: "\<exists>pre s'. cs = pre @ s' \<and> match_here r (char_before (Some c) cs (length pre)) s' = Some m"
    for c cs
  proof -
    from ih obtain pre s' where "cs = pre @ s'"
      "match_here r (char_before (Some c) cs (length pre)) s' = Some m" by blast
    then show ?thesis
      unfolding s by (intro exI [of _ "c # pre"] exI [of _ s']) (simp add: char_before_Suc)
  qed
  from finditer_cases [OF "1.prems"] consider
      c cs where "match_here r p s = None" "s = c # cs" "m \<in> set (finditer r (Some c) cs)"
    | "match_here r p s = Some m"
    | m' where "match_here r p s = Some m'" "length (rest m') < length s"
        "m \<in> set (finditer r (prev m') (rest m'))"
    | m' c cs where "match_here r p s = Some m'" "\<not> length (rest m') < length s" "s = c # cs"
        "m \<in> set (finditer r (Some c) cs)"
    by blast
  then show ?case
  proof cases
    case 1
    from skip [OF 1(2) "1.IH"(1) [OF 1(1) 1(2) 1(3)]] show ?thesis .
  next
    case 2
    then show ?thesis
      by (intro exI [of _ "[]"] exI [of _ s]) (simp add: char_before_def)
  next
    case 3
    from "1.IH"(2) [OF 3(1) 3(2) 3(3)] obtain pre s' where p: "rest m' = pre @ s'"
      "match_here r (char_before (prev m') (rest m') (length pre)) s' = Some m" by blast
    from match_here_consumed [OF 3(1)] obtain xs where xs: "s = xs @ rest m'"
      "prev m' = (if xs = [] then p else Some (last xs))" by blast
    from xs 3(2) have ne: "xs \<noteq> []" by auto
    have "char_before p s (length (xs @ pre)) = char_before (prev m') (rest m') (length pre)"
    proof (cases pre rule: rev_cases)
      case Nil
      with xs ne show ?thesis
        using char_before_end [of p xs "rest m'"] by (simp add: char_before_def)
    next
      case (snoc ys y)
      have "s = (xs @ pre) @ s'" using xs p by simp
      then have "char_before p s (length (xs @ pre)) = Some y"
        using char_before_end [of p "xs @ pre" s'] snoc by simp
      moreover have "char_before (prev m') (rest m') (length pre) = Some y"
        using char_before_end [of "prev m'" pre s'] p snoc by simp
      ultimately show ?thesis by simp
    qed
    with p xs show ?thesis
      by (intro exI [of _ "xs @ pre"] exI [of _ s']) simp
  next
    case 4
    from skip [OF 4(3) "1.IH"(3) [OF 4(1) 4(2) 4(3) 4(4)]] show ?thesis .
  qed
qed

lemma in_Bol: "m \<in> set (rmatch Bol s) \<longleftrightarrow> m = s \<and> at_line_start (prev s)"
  by (auto simp: at_line_start_def)

lemma heading_decomp:
  assumes "h \<in> set (rmatch heading_re s)"
  shows "\<exists>ws1 stem ext ws2.
           rest s = CHR ''#'' # ws1 @ stem @ CHR ''.'' # ext @ ws2 @ nl # rest h
         \<and> at_line_start (prev s)
         \<and> (\<forall>c \<in> set ws1. is_space c) \<and> stem \<noteq> [] \<and> (\<forall>c \<in> set stem. non_space c)
         \<and> ext \<in> set extensions \<and> (\<forall>c \<in> set ws2. is_space c)
         \<and> prev h = Some nl
         \<and> group h 1 = stem @ CHR ''.'' # ext \<and> group h 2 = ext
         \<and> (\<forall>n. n \<noteq> 1 \<and> n \<noteq> 2 \<longrightarrow> caps h n = caps s n)"
proof -
  let ?X = "Seq (Plus non_space) (Seq (Lit CHR ''.'') (Grp 2 extension_re))"
  from assms obtain s1 s2 s3 g h1 where s1: "s1 \<in> set (rmatch Bol s)"
    and s2: "s2 \<in> set (rmatch (Lit CHR ''#'') s1)"
    and s3: "s3 \<in> set (rmatch (Star is_space) s2)"
    and g: "g \<in> set (rmatch (Grp 1 ?X) s3)"
    and h1: "h1 \<in> set (rmatch (Star is_space) g)"
    and h: "h \<in> set (rmatch (Lit nl) h1)"
    unfolding heading_re_def in_Seq by blast
  from g obtain x where x: "x \<in> set (rmatch ?X s3)" and gx: "g = capture 1 s3 x"
    unfolding in_Grp by blast
  from x obtain y z where y: "y \<in> set (rmatch (Plus non_space) s3)"
    and z: "z \<in> set (rmatch (Lit CHR ''.'') y)" and xz: "x \<in> set (rmatch (Grp 2 extension_re) z)"
    unfolding in_Seq by blast
  from xz obtain e where e: "e \<in> set (rmatch extension_re z)" and xe: "x = capture 2 z e"
    unfolding in_Grp by blast
  from s1 [unfolded in_Bol] have b: "s1 = s" "at_line_start (prev s)" by simp_all
  from s2 [unfolded in_Lit] b have r2: "rest s = CHR ''#'' # rest s2" "caps s2 = caps s" by auto
  from in_star [OF s3] obtain ws1 where ws1: "\<forall>c \<in> set ws1. is_space c" "rest s2 = ws1 @ rest s3"
    "caps s3 = caps s2" by blast
  from in_plus [OF y] obtain stem where stem: "stem \<noteq> []" "\<forall>c \<in> set stem. non_space c"
    "rest s3 = stem @ rest y" "caps y = caps s3" by blast
  from z [unfolded in_Lit] have ry: "rest y = CHR ''.'' # rest z" "caps z = caps y" by auto
  from in_extension_re [OF e] obtain ext where ext: "ext \<in> set extensions" "rest z = ext @ rest e"
    "caps e = caps z" by blast
  have rg: "rest g = rest e" by (simp add: gx xe capture_def)
  from in_star [OF h1] obtain ws2 where ws2: "\<forall>c \<in> set ws2. is_space c" "rest g = ws2 @ rest h1"
    "caps h1 = caps g" by blast
  from h [unfolded in_Lit] have rh: "rest h1 = nl # rest h" "prev h = Some nl" "caps h = caps h1"
    by auto
  have cg: "caps g = (caps s)(2 \<mapsto> \<lparr>sp_prev = prev z, sp_from = rest z, sp_to = rest e\<rparr>,
                             1 \<mapsto> \<lparr>sp_prev = prev s3, sp_from = rest s3, sp_to = rest e\<rparr>)"
    by (simp add: gx xe capture_def ext ry stem ws1 r2)
  have "rest s = CHR ''#'' # ws1 @ stem @ CHR ''.'' # ext @ ws2 @ nl # rest h"
    using r2 ws1 stem ry ext rg ws2 rh by simp
  moreover have "group h 1 = stem @ CHR ''.'' # ext"
    by (simp add: group_def rh ws2 cg span_text_def stem ry ext)
  moreover have "group h 2 = ext"
    by (simp add: group_def rh ws2 cg span_text_def ext)
  moreover have "\<forall>n. n \<noteq> 1 \<and> n \<noteq> 2 \<longrightarrow> caps h n = caps s n"
    by (simp add: rh ws2 cg)
  ultimately show ?thesis
    using b ws1 stem ext ws2 rh by blast
qed

lemma heading_shortens:
  assumes "h \<in> set (rmatch heading_re s)"
  shows "length (rest h) < length (rest s)"
  using heading_decomp [OF assms] by auto

lemma match_content:
  assumes "match_here file_pattern p s = Some m"
  shows "\<exists>sp j xs. caps m 4 = Some sp \<and> j \<le> length (sp_from sp)
         \<and> sp_to sp = drop j (sp_from sp) \<and> group m 4 = take j (sp_from sp)
         \<and> s = xs @ sp_from sp \<and> xs \<noteq> []
         \<and> sp_prev sp = Some (last xs)
         \<and> is_boundary (char_before (sp_prev sp) (sp_from sp) j) (sp_to sp)
         \<and> (\<forall>i < j. \<not> is_boundary (char_before (sp_prev sp) (sp_from sp) i) (drop i (sp_from sp)))"
proof -
  let ?st = "\<lparr>prev = p, rest = s, caps = (\<lambda>_. None)\<rparr>"
  from match_here_elem [OF assms] have ne: "rmatch file_pattern ?st \<noteq> []"
    and m: "m = hd (rmatch file_pattern ?st)" by simp_all
  from file_pattern_needs_heading [OF ne] have hne: "rmatch heading_re ?st \<noteq> []" .
  define h where "h = hd (rmatch heading_re ?st)"
  define x where "x = hd (rmatch fence_open_re h)"
  have hin: "h \<in> set (rmatch heading_re ?st)" using hne by (simp add: h_def)
  have xin: "x \<in> set (rmatch fence_open_re h)" using fence_open_nonempty by (simp add: x_def)
  from file_pattern_first [OF hne] have mx: "m = hd (rmatch content_re x)"
    by (simp add: m h_def x_def)
  from rmatch_consumed [OF hin] obtain xs where xs: "consumed ?st xs h" by blast
  from rmatch_consumed [OF xin] obtain ys where ys: "consumed h ys x" by blast
  have "xs \<noteq> []"
    using heading_shortens [OF hin] xs by (auto simp: consumed_def)
  from xs ys have c: "consumed ?st (xs @ ys) x" by (rule consumed_trans)
  with \<open>xs \<noteq> []\<close> have s: "s = (xs @ ys) @ rest x" and px: "prev x = Some (last (xs @ ys))"
    by (simp_all add: consumed_def)
  from content_first [of x] obtain j where j: "j \<le> length (rest x)"
    "\<forall>i < j. \<not> is_boundary (char_before (prev x) (rest x) i) (drop i (rest x))"
    "is_boundary (char_before (prev x) (rest x) j) (drop j (rest x))"
    "caps m 4 = Some \<lparr>sp_prev = prev x, sp_from = rest x, sp_to = drop j (rest x)\<rparr>"
    unfolding mx by blast
  have g: "group m 4 = take j (rest x)"
    using j(1) by (simp add: group_def j(4) span_text_def)
  from j g s px \<open>xs \<noteq> []\<close> show ?thesis
    by (intro exI [of _ "\<lparr>sp_prev = prev x, sp_from = rest x, sp_to = drop j (rest x)\<rparr>"]
        exI [of _ j] exI [of _ "xs @ ys"]) simp
qed

subsection \<open>Headings\<close>

lemma star_greedy_self: "(p, s) \<in> set (star_greedy P p s)"
  by (cases s) simp_all

lemma star_greedy_reaches:
  "\<forall>c \<in> set xs. P c \<Longrightarrow> \<exists>q. (q, r) \<in> set (star_greedy P p (xs @ r))"
proof (induction xs arbitrary: p)
  case Nil
  then show ?case using star_greedy_self [of p r P] by auto
next
  case (Cons c xs)
  then obtain q where "(q, r) \<in> set (star_greedy P (Some c) (xs @ r))" by fastforce
  with Cons.prems show ?case by auto
qed

lemma star_reaches:
  assumes "rest s = xs @ r" "\<forall>c \<in> set xs. P c"
  shows "\<exists>m \<in> set (rmatch (Star P) s). rest m = r"
proof -
  from star_greedy_reaches [OF assms(2), of r "prev s"] obtain q where
    "(q, r) \<in> set (star_greedy P (prev s) (rest s))" unfolding assms(1) by blast
  then have "move s (q, r) \<in> set (rmatch (Star P) s)"
    unfolding rmatch.simps set_map by (rule imageI)
  then show ?thesis by (rule bexI [rotated]) (simp add: move_def)
qed

lemma plus_reaches:
  assumes "rest s = xs @ r" "xs \<noteq> []" "\<forall>c \<in> set xs. P c"
  shows "\<exists>m \<in> set (rmatch (Plus P) s). rest m = r"
proof -
  from assms obtain c ys where xs: "xs = c # ys" by (cases xs) auto
  let ?t = "s\<lparr>prev := Some c, rest := ys @ r\<rparr>"
  have t: "?t \<in> set (step P s)" using assms xs by (simp add: step_def)
  from star_greedy_reaches [of ys P r "Some c"] assms(3) xs obtain q where
    "(q, r) \<in> set (star_greedy P (prev ?t) (rest ?t))" by auto
  then have "move ?t (q, r) \<in> move ?t ` set (star_greedy P (prev ?t) (rest ?t))"
    by (rule imageI)
  with t have "move ?t (q, r) \<in> set (rmatch (Plus P) s)"
    unfolding rmatch.simps set_concat set_map image_image by (rule UN_I)
  then show ?thesis by (rule bexI [rotated]) (simp add: move_def)
qed

lemma lit_reaches: "rest s = c # r \<Longrightarrow> \<exists>m \<in> set (rmatch (Lit c) s). rest m = r"
  by (simp add: step_def)

lemma str_reaches: "rest s = w @ r \<Longrightarrow> \<exists>m \<in> set (rmatch (str_re w) s). rest m = r"
  by (simp add: rmatch_str_re)

lemma set_extension_re:
  "set (rmatch extension_re s) = (\<Union>e \<in> set extensions. set (rmatch (str_re e) s))"
  by (simp add: extension_re_def extensions_def Un_assoc)

lemma extension_reaches:
  assumes "e \<in> set extensions" "rest s = e @ r"
  shows "\<exists>m \<in> set (rmatch extension_re s). rest m = r"
proof -
  from str_reaches [OF assms(2)] obtain m where m: "m \<in> set (rmatch (str_re e) s)" "rest m = r"
    by blast
  with assms(1) have "m \<in> set (rmatch extension_re s)"
    unfolding set_extension_re by blast
  with m show ?thesis by blast
qed

lemma grp_reaches:
  "\<exists>m \<in> set (rmatch a s). rest m = r \<Longrightarrow> \<exists>m \<in> set (rmatch (Grp n a) s). rest m = r"
  by (auto simp: capture_def)

lemma seq_reaches:
  assumes "\<exists>t \<in> set (rmatch a s). rest t = r1"
    and "\<And>t. rest t = r1 \<Longrightarrow> \<exists>m \<in> set (rmatch b t). rest m = r2"
  shows "\<exists>m \<in> set (rmatch (Seq a b) s). rest m = r2"
proof -
  from assms(1) obtain t where t: "t \<in> set (rmatch a s)" "rest t = r1" by blast
  from assms(2) [OF t(2)] obtain m where m: "m \<in> set (rmatch b t)" "rest m = r2" by blast
  from t(1) m(1) have "m \<in> set (rmatch (Seq a b) s)" unfolding in_Seq by (rule bexI [rotated])
  then show ?thesis using m(2) by (rule bexI [rotated])
qed

lemma heading_exists:
  assumes "at_line_start (prev s)"
    and "rest s = CHR ''#'' # ws1 @ stem @ CHR ''.'' # ext @ ws2 @ nl # r"
    and "\<forall>c \<in> set ws1. is_space c" "stem \<noteq> []" "\<forall>c \<in> set stem. non_space c"
    and "ext \<in> set extensions" "\<forall>c \<in> set ws2. is_space c"
  shows "\<exists>h \<in> set (rmatch heading_re s). rest h = r"
  unfolding heading_re_def
proof (intro seq_reaches)
  show "\<exists>t \<in> set (rmatch Bol s). rest t = rest s"
    using assms(1) by (simp add: at_line_start_def)
  show "\<exists>m \<in> set (rmatch (Lit CHR ''#'') t). rest m = ws1 @ stem @ CHR ''.'' # ext @ ws2 @ nl # r"
    if "rest t = rest s" for t
    using that assms(2) by (intro lit_reaches) simp
  show "\<exists>m \<in> set (rmatch (Star is_space) t). rest m = stem @ CHR ''.'' # ext @ ws2 @ nl # r"
    if "rest t = ws1 @ stem @ CHR ''.'' # ext @ ws2 @ nl # r" for t
    using that assms(3) by (rule star_reaches)
  show "\<exists>m \<in> set (rmatch (Grp 1 (Seq (Plus non_space) (Seq (Lit CHR ''.'') (Grp 2 extension_re)))) t).
          rest m = ws2 @ nl # r"
    if t: "rest t = stem @ CHR ''.'' # ext @ ws2 @ nl # r" for t
  proof (intro grp_reaches seq_reaches)
    show "\<exists>u \<in> set (rmatch (Plus non_space) t). rest u = CHR ''.'' # ext @ ws2 @ nl # r"
      using t assms(4,5) by (rule plus_reaches)
    show "\<exists>m \<in> set (rmatch (Lit CHR ''.'') u). rest m = ext @ ws2 @ nl # r"
      if "rest u = CHR ''.'' # ext @ ws2 @ nl # r" for u
      using that by (rule lit_reaches)
    show "\<exists>m \<in> set (rmatch extension_re u). rest m = ws2 @ nl # r"
      if "rest u = ext @ ws2 @ nl # r" for u
      using assms(6) that by (rule extension_reaches)
  qed
  show "\<exists>m \<in> set (rmatch (Star is_space) t). rest m = nl # r"
    if "rest t = ws2 @ nl # r" for t
    using that assms(7) by (rule star_reaches)
  show "\<exists>m \<in> set (rmatch (Lit nl) t). rest m = r" if "rest t = nl # r" for t
    using that by (rule lit_reaches)
qed

lemma takeWhile_stop:
  "\<forall>c \<in> set xs. P c \<Longrightarrow> ys = [] \<or> \<not> P (hd ys) \<Longrightarrow> takeWhile P (xs @ ys) = xs"
  by (cases ys) (simp_all add: takeWhile_append2)

lemma dropWhile_stop:
  "\<forall>c \<in> set xs. P c \<Longrightarrow> ys = [] \<or> \<not> P (hd ys) \<Longrightarrow> dropWhile P (xs @ ys) = ys"
  by (cases ys) (simp_all add: dropWhile_append2)

lemma has_extension_iff:
  "has_extension tok \<longleftrightarrow> (\<exists>e \<in> set extensions. \<exists>st. st \<noteq> [] \<and> tok = st @ CHR ''.'' # e)"
proof
  assume "has_extension tok"
  then obtain e where e: "e \<in> set extensions" "length e + 1 < length tok"
    "drop (length tok - (length e + 1)) tok = CHR ''.'' # e"
    by (auto simp: has_extension_def list_ex_iff)
  let ?st = "take (length tok - (length e + 1)) tok"
  have "tok = ?st @ CHR ''.'' # e" using e(3) by (metis append_take_drop_id)
  moreover have "?st \<noteq> []" using e(2) by auto
  ultimately show "\<exists>e \<in> set extensions. \<exists>st. st \<noteq> [] \<and> tok = st @ CHR ''.'' # e"
    using e(1) by blast
next
  assume "\<exists>e \<in> set extensions. \<exists>st. st \<noteq> [] \<and> tok = st @ CHR ''.'' # e"
  then obtain e st where "e \<in> set extensions" "st \<noteq> []" "tok = st @ CHR ''.'' # e" by blast
  then show "has_extension tok"
    by (auto simp: has_extension_def list_ex_iff intro!: bexI [of _ e])
qed

lemma is_space_nl: "is_space nl"
  by (simp add: is_space_def)

lemma heading_text_is_heading:
  assumes "s = CHR ''#'' # ws1 @ stem @ CHR ''.'' # ext @ ws2 @ nl # r"
    and "\<forall>c \<in> set ws1. is_space c" "stem \<noteq> []" "\<forall>c \<in> set stem. non_space c"
    and "ext \<in> set extensions" "\<forall>c \<in> set ws2. is_space c"
  shows "heading_name s = stem @ CHR ''.'' # ext"
    and "at_line_start p \<Longrightarrow> is_heading p s"
proof -
  let ?tok = "stem @ CHR ''.'' # ext"
  let ?after = "ws2 @ nl # r"
  have tok: "\<forall>c \<in> set ?tok. non_space c"
    using assms(4) extension_chars [OF assms(5)] by (auto simp: non_space_def is_space_def)
  have a: "?after \<noteq> []" "\<not> non_space (hd ?after)"
    using assms(6) is_space_nl by (cases ws2; simp add: non_space_def)+
  have 1: "dropWhile is_space (tl s) = ?tok @ ?after"
    unfolding assms(1) using dropWhile_stop [of ws1 is_space "?tok @ ?after"] assms(2,3,4)
    by (cases stem) (auto simp: non_space_def)
  have 2: "takeWhile non_space (?tok @ ?after) = ?tok"
    using tok a by (intro takeWhile_stop) auto
  have 3: "dropWhile non_space (?tok @ ?after) = ?after"
    using tok a by (intro dropWhile_stop) auto
  have 4: "nl \<in> set (takeWhile is_space ?after)"
    using assms(6) is_space_nl by (simp add: takeWhile_append2)
  show n: "heading_name s = ?tok"
    unfolding heading_name_def 1 2 ..
  have "has_extension ?tok"
    unfolding has_extension_iff using assms(3,5) by blast
  then show "is_heading p s" if "at_line_start p"
    unfolding is_heading_def n using that 4 unfolding 1 3 by (simp add: assms(1))
qed

lemma heading_is_heading:
  assumes "h \<in> set (rmatch heading_re s)"
  shows "is_heading (prev s) (rest s) \<and> group h 1 = heading_name (rest s)"
proof -
  from heading_decomp [OF assms] obtain ws1 stem ext ws2 where
    d: "rest s = CHR ''#'' # ws1 @ stem @ CHR ''.'' # ext @ ws2 @ nl # rest h"
    "at_line_start (prev s)" "\<forall>c \<in> set ws1. is_space c" "stem \<noteq> []" "\<forall>c \<in> set stem. non_space c"
    "ext \<in> set extensions" "\<forall>c \<in> set ws2. is_space c" "group h 1 = stem @ CHR ''.'' # ext"
    by blast
  from heading_text_is_heading [OF d(1) d(3-7)] d(2,8) show ?thesis by simp
qed

lemma is_heading_matches:
  assumes "is_heading (prev s) (rest s)"
  shows "rmatch heading_re s \<noteq> []"
proof -
  let ?t = "tl (rest s)"
  let ?t1 = "dropWhile is_space ?t"
  let ?tok = "takeWhile non_space ?t1"
  let ?t2 = "dropWhile non_space ?t1"
  from assms have ls: "at_line_start (prev s)"
    and he: "has_extension ?tok" and n: "nl \<in> set (takeWhile is_space ?t2)"
    by (simp_all add: is_heading_def heading_name_def)
  from assms have s: "rest s = CHR ''#'' # ?t"
    by (cases "rest s") (simp_all add: is_heading_def)
  from he obtain e st where e: "e \<in> set extensions" "st \<noteq> []" "?tok = st @ CHR ''.'' # e"
    unfolding has_extension_iff by blast
  from n obtain a b where ab: "takeWhile is_space ?t2 = a @ nl # b"
    by (auto dest: split_list)
  have sp: "\<forall>c \<in> set a. is_space c"
    using ab by (metis UnI1 set_append set_takeWhileD)
  have "\<forall>c \<in> set ?tok. non_space c" by (auto dest: set_takeWhileD)
  then have st: "\<forall>c \<in> set st. non_space c" unfolding e(3) by simp
  have "?t = takeWhile is_space ?t @ ?tok @ (a @ nl # b) @ dropWhile is_space ?t2"
    unfolding ab [symmetric] by simp
  then have "rest s = CHR ''#'' # takeWhile is_space ?t @ st @ CHR ''.'' # e @ a @ nl # (b @ dropWhile is_space ?t2)"
    using s e(3) by simp
  moreover have "\<forall>c \<in> set (takeWhile is_space ?t). is_space c"
    by (auto dest: set_takeWhileD)
  ultimately have "\<exists>h \<in> set (rmatch heading_re s). rest h = b @ dropWhile is_space ?t2"
    using ls e(2) st e(1) sp by (intro heading_exists)
  then show ?thesis by auto
qed

lemma match_here_iff_heading:
  "match_here file_pattern p s \<noteq> None \<longleftrightarrow> is_heading p s"
proof -
  let ?st = "\<lparr>prev = p, rest = s, caps = (\<lambda>_. None)\<rparr>"
  have "match_here file_pattern p s \<noteq> None \<longleftrightarrow> rmatch file_pattern ?st \<noteq> []"
    by (simp add: match_here_def split: list.splits)
  also have "\<dots> \<longleftrightarrow> rmatch heading_re ?st \<noteq> []"
    using file_pattern_first [of ?st] file_pattern_needs_heading [of ?st] by blast
  also have "\<dots> \<longleftrightarrow> is_heading p s"
    using is_heading_matches [of ?st] heading_is_heading [of _ ?st]
    by (cases "rmatch heading_re ?st") auto
  finally show ?thesis .
qed

end
